theory Spec2Isabelle
  imports Complex_Main "HOL-Library.Word" "HOL-Library.Multiset"
begin

chapter \<open>The console memory match game (memory.js)\<close>

text \<open>
  The first part of this theory is the program: every definition is a transcription of
  a function, a callback or a loop body of \<^verbatim>\<open>src/memory.js\<close>, with the line
  numbers it comes from, or of a built-in of the platform that the program calls
  (\<^verbatim>\<open>parseInt\<close>, \<^verbatim>\<open>JSON.parse\<close>, \<^verbatim>\<open>JSON.stringify\<close>, reading and writing
  a file). The second part proves the properties.
\<close>

section \<open>JavaScript values\<close>

text \<open>
  A JavaScript string is a sequence of 16-bit code units. Source literals are written
  as \<open>js ''...''\<close>. Messages that are only shown to the player are kept as plain
  \<open>string\<close> literals.
\<close>

type_synonym jschar = "16 word"
type_synonym jsstring = "jschar list"

definition js :: "string \<Rightarrow> jsstring" where
  "js s = map of_char s"

text \<open>
  Exceptions are values: an \<open>Error\<close> object with its message, the
  \<^verbatim>\<open>SyntaxError\<close> of \<^verbatim>\<open>JSON.parse\<close>, a \<^verbatim>\<open>TypeError\<close>, and the error of
  reading a file that does not exist. Two more answers are the model's own:
  \<open>Unmodelled\<close> for a value the model does not represent, and \<open>OutOfFuel\<close> for the
  parser's bound on its recursion.
\<close>

datatype js_error =
    Error string
  | SyntaxError
  | TypeError
  | NoSuchFile
  | OutOfFuel
  | Unmodelled

section \<open>Reading numbers: \<^verbatim>\<open>parseInt\<close>\<close>

text \<open>
  \<^verbatim>\<open>parseInt(num)\<close> with no radix: leading white space is skipped, a sign is read,
  a \<^verbatim>\<open>0x\<close> prefix selects radix 16, and the longest prefix of digits is the value.
  No digit at all is \<^verbatim>\<open>NaN\<close>, here \<open>None\<close>. The value is an \<open>int\<close>: the
  rounding of a double beyond \<open>2 ^ 53\<close> is not modelled.
\<close>

definition is_space :: "jschar \<Rightarrow> bool" where
  "is_space c = (c = 0x20 \<or> (0x09 \<le> c \<and> c \<le> 0x0D) \<or> c = 0xA0 \<or> c = 0xFEFF
     \<or> c = 0x2028 \<or> c = 0x2029)"

definition digit_of :: "nat \<Rightarrow> jschar \<Rightarrow> nat option" where
  "digit_of radix c =
     (let v = (if 0x30 \<le> c \<and> c \<le> 0x39 then unat c - 0x30
               else if 0x61 \<le> c \<and> c \<le> 0x7A then unat c - 0x61 + 10
               else if 0x41 \<le> c \<and> c \<le> 0x5A then unat c - 0x41 + 10
               else radix)
      in if v < radix then Some v else None)"

fun digits_value :: "nat \<Rightarrow> int \<Rightarrow> jsstring \<Rightarrow> int" where
  "digits_value radix acc [] = acc"
| "digits_value radix acc (c # cs) =
     (case digit_of radix c of
        Some v \<Rightarrow> digits_value radix (acc * int radix + int v) cs
      | None \<Rightarrow> acc)"

definition parseInt :: "jsstring \<Rightarrow> int option" where
  "parseInt s =
     (let t = dropWhile is_space s;
          (sign, u) = (case t of
                         c # r \<Rightarrow> if c = 0x2D then (- 1, r)
                                  else if c = 0x2B then (1, r) else (1, t)
                       | [] \<Rightarrow> (1, t));
          (radix, v) = (case u of
                          a # b # r \<Rightarrow> if a = 0x30 \<and> (b = 0x78 \<or> b = 0x58) then (16, r)
                                       else (10, u)
                        | _ \<Rightarrow> (10, u))
      in (case v of
            [] \<Rightarrow> None
          | d # _ \<Rightarrow> (case digit_of radix d of
                         None \<Rightarrow> None
                       | Some _ \<Rightarrow> Some (sign * digits_value radix 0 v))))"

section \<open>JSON: \<^verbatim>\<open>JSON.stringify\<close> and \<^verbatim>\<open>JSON.parse\<close>\<close>

text \<open>
  The two built-ins that \<^verbatim>\<open>loadHighScores\<close> and \<^verbatim>\<open>saveHighScore\<close> call are
  modelled after ECMA-262 on the values the leaderboard needs: \<^verbatim>\<open>null\<close>, booleans,
  integers, strings, arrays and objects, an object being the list of its properties in
  order. What a double does beyond integers (fractions, exponents, \<^verbatim>\<open>-0\<close>, rounding
  above \<open>2 ^ 53\<close>) and what an object does with a repeated or an integer-like key
  (it reorders or overwrites) is outside the model: the parser reads such a text as any
  other, and answers \<open>Unmodelled\<close> in the place of its value.
\<close>

datatype json =
    JNull
  | JBool bool
  | JNumber int
  | JString jsstring
  | JArray "json list"
  | JObject "(jsstring \<times> json) list"

subsection \<open>\<^verbatim>\<open>JSON.stringify(value, null, 2)\<close>\<close>

text \<open>
  \<^verbatim>\<open>QuoteJSONString\<close> goes through the string by code points. A surrogate pair is
  copied; a lone surrogate and a control character below U+0020 are written as
  \<^verbatim>\<open>\uXXXX\<close> with lower-case digits, except for the seven characters that have a
  two-character escape.
\<close>

definition is_high_surrogate :: "jschar \<Rightarrow> bool" where
  "is_high_surrogate c = (0xD800 \<le> c \<and> c \<le> 0xDBFF)"

definition is_low_surrogate :: "jschar \<Rightarrow> bool" where
  "is_low_surrogate c = (0xDC00 \<le> c \<and> c \<le> 0xDFFF)"

definition is_surrogate :: "jschar \<Rightarrow> bool" where
  "is_surrogate c = (is_high_surrogate c \<or> is_low_surrogate c)"

definition hex_digit :: "nat \<Rightarrow> jschar" where
  "hex_digit n = (if n < 10 then of_nat (0x30 + n) else of_nat (0x61 + (n - 10)))"

definition unicode_escape :: "jschar \<Rightarrow> jsstring" where
  "unicode_escape c =
     [0x5C, 0x75, hex_digit (unat c div 4096), hex_digit (unat c div 256 mod 16),
      hex_digit (unat c div 16 mod 16), hex_digit (unat c mod 16)]"

definition quote_char :: "jschar \<Rightarrow> jsstring" where
  "quote_char c =
     (if c = 0x08 then [0x5C, 0x62]
      else if c = 0x09 then [0x5C, 0x74]
      else if c = 0x0A then [0x5C, 0x6E]
      else if c = 0x0C then [0x5C, 0x66]
      else if c = 0x0D then [0x5C, 0x72]
      else if c = 0x22 then [0x5C, 0x22]
      else if c = 0x5C then [0x5C, 0x5C]
      else if c < 0x20 then unicode_escape c
      else [c])"

fun quote_body :: "jsstring \<Rightarrow> jsstring" where
  "quote_body [] = []"
| "quote_body [c] =
     (if is_high_surrogate c \<or> is_low_surrogate c then unicode_escape c else quote_char c)"
| "quote_body (c # d # cs) =
     (if is_high_surrogate c \<and> is_low_surrogate d then c # d # quote_body cs
      else if is_high_surrogate c \<or> is_low_surrogate c
           then unicode_escape c @ quote_body (d # cs)
      else quote_char c @ quote_body (d # cs))"

definition QuoteJSONString :: "jsstring \<Rightarrow> jsstring" where
  "QuoteJSONString s = 0x22 # quote_body s @ [0x22]"

text \<open>An integer is written in decimal, with a minus sign when it is negative.\<close>

fun digits_of :: "nat \<Rightarrow> jsstring" where
  "digits_of n = (if n < 10 then [of_nat (0x30 + n)]
                  else digits_of (n div 10) @ [of_nat (0x30 + n mod 10)])"

declare digits_of.simps [simp del]

definition number_to_string :: "int \<Rightarrow> jsstring" where
  "number_to_string i = (if i < 0 then 0x2D # digits_of (nat (- i)) else digits_of (nat i))"

text \<open>
  With the indentation 2, a non-empty array or object has each element on a line of
  its own, indented two spaces per nesting level, and the closing bracket on a line of
  its own; a property is written \<^verbatim>\<open>"key": value\<close>.
\<close>

definition newline_indent :: "nat \<Rightarrow> jsstring" where
  "newline_indent n = 0x0A # replicate (2 * n) 0x20"

fun join :: "jsstring \<Rightarrow> jsstring list \<Rightarrow> jsstring" where
  "join sep [] = []"
| "join sep [x] = x"
| "join sep (x # y # ys) = x @ sep @ join sep (y # ys)"

fun stringify_at :: "nat \<Rightarrow> json \<Rightarrow> jsstring" where
  "stringify_at n JNull = js ''null''"
| "stringify_at n (JBool b) = (if b then js ''true'' else js ''false'')"
| "stringify_at n (JNumber i) = number_to_string i"
| "stringify_at n (JString s) = QuoteJSONString s"
| "stringify_at n (JArray []) = js ''[]''"
| "stringify_at n (JArray (v # vs)) =
     0x5B # newline_indent (n + 1) @
     join (0x2C # newline_indent (n + 1)) (map (stringify_at (n + 1)) (v # vs)) @
     newline_indent n @ [0x5D]"
| "stringify_at n (JObject []) = js ''{}''"
| "stringify_at n (JObject (kv # kvs)) =
     0x7B # newline_indent (n + 1) @
     join (0x2C # newline_indent (n + 1))
       (map (\<lambda>p. QuoteJSONString (fst p) @ [0x3A, 0x20] @ stringify_at (n + 1) (snd p)) (kv # kvs)) @
     newline_indent n @ [0x7D]"

definition JSON_stringify :: "json \<Rightarrow> jsstring" where
  "JSON_stringify v = stringify_at 0 v"

subsection \<open>\<^verbatim>\<open>JSON.parse(data)\<close>\<close>

text \<open>
  The JSON grammar, by recursive descent. White space is space, tab, line feed and
  carriage return. \<^verbatim>\<open>JSON.parse\<close> throws a \<^verbatim>\<open>SyntaxError\<close> on every text that
  is not a JSON text, trailing characters included.
\<close>

definition is_json_space :: "jschar \<Rightarrow> bool" where
  "is_json_space c = (c = 0x20 \<or> c = 0x09 \<or> c = 0x0A \<or> c = 0x0D)"

definition skip_ws :: "jsstring \<Rightarrow> jsstring" where
  "skip_ws s = dropWhile is_json_space s"

definition unescape :: "jschar \<Rightarrow> jschar option" where
  "unescape c =
     (if c = 0x22 then Some 0x22
      else if c = 0x5C then Some 0x5C
      else if c = 0x2F then Some 0x2F
      else if c = 0x62 then Some 0x08
      else if c = 0x66 then Some 0x0C
      else if c = 0x6E then Some 0x0A
      else if c = 0x72 then Some 0x0D
      else if c = 0x74 then Some 0x09
      else None)"

text \<open>
  A string, after its opening quote: the characters read so far (last one first), and
  where the scan is: in plain text, behind a backslash, or in the four digits of a
  \<^verbatim>\<open>\u\<close> escape with \<open>k\<close> digits of value \<open>v\<close> read. The result is the string
  and the text behind the closing quote; \<open>None\<close> is a syntax error.
\<close>

datatype scan_mode = Plain | Escape | Hex nat nat

fun scan_string :: "scan_mode \<Rightarrow> jsstring \<Rightarrow> jsstring \<Rightarrow> (jsstring \<times> jsstring) option" where
  "scan_string m acc [] = None"
| "scan_string Plain acc (c # cs) =
     (if c = 0x22 then Some (rev acc, cs)
      else if c = 0x5C then scan_string Escape acc cs
      else if c < 0x20 then None
      else scan_string Plain (c # acc) cs)"
| "scan_string Escape acc (c # cs) =
     (if c = 0x75 then scan_string (Hex 0 0) acc cs
      else (case unescape c of
              None \<Rightarrow> None
            | Some u \<Rightarrow> scan_string Plain (u # acc) cs))"
| "scan_string (Hex k v) acc (c # cs) =
     (case digit_of 16 c of
        None \<Rightarrow> None
      | Some d \<Rightarrow>
          if k = 3 then scan_string Plain (of_nat (v * 16 + d) # acc) cs
          else scan_string (Hex (k + 1) (v * 16 + d)) acc cs)"

text \<open>
  A number is an optional minus sign, then \<^verbatim>\<open>0\<close> or a digit string that does not
  start with \<^verbatim>\<open>0\<close>, then an optional fraction (a point and at least one digit), then
  an optional exponent (\<^verbatim>\<open>e\<close> or \<^verbatim>\<open>E\<close>, an optional sign and at least one digit).
  Each part is read with the text behind it; a fraction or an exponent that is there is
  \<open>Some\<close> digits. The text is read to the end of the number. The value is \<open>Some\<close>
  integer, or \<open>None\<close> for a number outside the model: one with a fraction or an
  exponent, one above \<open>2 ^ 53\<close>, and \<^verbatim>\<open>-0\<close>.
\<close>

definition is_digit :: "jschar \<Rightarrow> bool" where
  "is_digit c = (0x30 \<le> c \<and> c \<le> 0x39)"

definition number_sign :: "jsstring \<Rightarrow> bool \<times> jsstring" where
  "number_sign s =
     (case s of c # r \<Rightarrow> if c = 0x2D then (True, r) else (False, s) | [] \<Rightarrow> (False, s))"

definition number_int :: "jsstring \<Rightarrow> jsstring" where
  "number_int t =
     (case t of c # r \<Rightarrow> if c = 0x30 then [c] else takeWhile is_digit t | [] \<Rightarrow> [])"

definition number_fraction :: "jsstring \<Rightarrow> jsstring option \<times> jsstring" where
  "number_fraction t =
     (case t of
        c # r \<Rightarrow> if c = 0x2E then (Some (takeWhile is_digit r), dropWhile is_digit r)
                 else (None, t)
      | [] \<Rightarrow> (None, t))"

definition number_exponent :: "jsstring \<Rightarrow> jsstring option \<times> jsstring" where
  "number_exponent t =
     (case t of
        c # r \<Rightarrow>
          if c = 0x65 \<or> c = 0x45
          then (let u = (case r of
                           d # r' \<Rightarrow> if d = 0x2B \<or> d = 0x2D then r' else r
                         | [] \<Rightarrow> r)
                in (Some (takeWhile is_digit u), dropWhile is_digit u))
          else (None, t)
      | [] \<Rightarrow> (None, t))"

definition parse_number :: "jsstring \<Rightarrow> js_error + (int option \<times> jsstring)" where
  "parse_number s =
     (let (negative, t) = number_sign s;
          ds = number_int t;
          (fraction, t2) = number_fraction (drop (length ds) t);
          (exponent, t3) = number_exponent t2;
          n = digits_value 10 0 ds
      in if ds = [] \<or> fraction = Some [] \<or> exponent = Some [] then Inl SyntaxError
         else if fraction \<noteq> None \<or> exponent \<noteq> None \<or> 9007199254740992 < n \<or>
                 (negative \<and> n = 0)
              then Inr (None, t3)
         else Inr (Some (if negative then - n else n), t3))"

fun strip_prefix :: "jsstring \<Rightarrow> jsstring \<Rightarrow> jsstring option" where
  "strip_prefix [] s = Some s"
| "strip_prefix (p # ps) [] = None"
| "strip_prefix (p # ps) (c # cs) = (if p = c then strip_prefix ps cs else None)"

text \<open>
  The keys of an object the model represents: all different, none starting with a digit
  (an object with a repeated key keeps the last value only, and one with keys that are
  array indices puts them first).
\<close>

definition keys_modelled :: "jsstring list \<Rightarrow> bool" where
  "keys_modelled ks =
     (distinct ks \<and> (\<forall>k \<in> set ks. case k of c # _ \<Rightarrow> \<not> is_digit c | [] \<Rightarrow> True))"

text \<open>All the values of a list, when none is missing.\<close>

fun all_some :: "'a option list \<Rightarrow> 'a list option" where
  "all_some [] = Some []"
| "all_some (None # xs) = None"
| "all_some (Some x # xs) = map_option ((#) x) (all_some xs)"

text \<open>
  A value; the rest of an array behind an element (the elements read so far, last one
  first); a property \<^verbatim>\<open>"key": value\<close>; the rest of an object behind a property.
  Each returns what it read and the text behind it. What it read is \<open>Some\<close> value, or
  \<open>None\<close> when the text is right and its value is outside the model: a text is read
  to its end in both cases, so that \<open>SyntaxError\<close> is the answer for every text that
  is not a JSON text, and for no other. The first argument bounds the depth of the
  calls: \<open>JSON_parse\<close> gives more than the length of the text, which is never used up
  (\<open>JSON_parse_fuel\<close>).
\<close>

fun parse_value :: "nat \<Rightarrow> jsstring \<Rightarrow> js_error + (json option \<times> jsstring)"
  and parse_array_rest ::
    "nat \<Rightarrow> json option list \<Rightarrow> jsstring \<Rightarrow> js_error + (json option \<times> jsstring)"
  and parse_member :: "nat \<Rightarrow> jsstring \<Rightarrow> js_error + ((jsstring \<times> json option) \<times> jsstring)"
  and parse_object_rest ::
    "nat \<Rightarrow> (jsstring \<times> json option) list \<Rightarrow> jsstring \<Rightarrow>
       js_error + (json option \<times> jsstring)"
  where
  "parse_value 0 s = Inl OutOfFuel"
| "parse_value (Suc n) s =
     (case skip_ws s of
        [] \<Rightarrow> Inl SyntaxError
      | c # cs \<Rightarrow>
          if c = 0x22 then
            (case scan_string Plain [] cs of
               None \<Rightarrow> Inl SyntaxError
             | Some (str, r) \<Rightarrow> Inr (Some (JString str), r))
          else if c = 0x5B then
            (case skip_ws cs of
               [] \<Rightarrow> Inl SyntaxError
             | d # ds \<Rightarrow>
                 if d = 0x5D then Inr (Some (JArray []), ds)
                 else (case parse_value n cs of
                         Inl e \<Rightarrow> Inl e
                       | Inr (v, r) \<Rightarrow> parse_array_rest n [v] r))
          else if c = 0x7B then
            (case skip_ws cs of
               [] \<Rightarrow> Inl SyntaxError
             | d # ds \<Rightarrow>
                 if d = 0x7D then Inr (Some (JObject []), ds)
                 else (case parse_member n cs of
                         Inl e \<Rightarrow> Inl e
                       | Inr (kv, r) \<Rightarrow> parse_object_rest n [kv] r))
          else if c = 0x2D \<or> is_digit c then
            (case parse_number (c # cs) of
               Inl e \<Rightarrow> Inl e
             | Inr (i, r) \<Rightarrow> Inr (map_option JNumber i, r))
          else (case strip_prefix (js ''null'') (c # cs) of
                  Some r \<Rightarrow> Inr (Some JNull, r)
                | None \<Rightarrow>
            (case strip_prefix (js ''true'') (c # cs) of
                  Some r \<Rightarrow> Inr (Some (JBool True), r)
                | None \<Rightarrow>
            (case strip_prefix (js ''false'') (c # cs) of
                  Some r \<Rightarrow> Inr (Some (JBool False), r)
                | None \<Rightarrow> Inl SyntaxError))))"
| "parse_array_rest 0 acc s = Inl OutOfFuel"
| "parse_array_rest (Suc n) acc s =
     (case skip_ws s of
        [] \<Rightarrow> Inl SyntaxError
      | c # cs \<Rightarrow>
          if c = 0x5D then Inr (map_option JArray (all_some (rev acc)), cs)
          else if c = 0x2C then
            (case parse_value n cs of
               Inl e \<Rightarrow> Inl e
             | Inr (v, r) \<Rightarrow> parse_array_rest n (v # acc) r)
          else Inl SyntaxError)"
| "parse_member 0 s = Inl OutOfFuel"
| "parse_member (Suc n) s =
     (case skip_ws s of
        [] \<Rightarrow> Inl SyntaxError
      | c # cs \<Rightarrow>
          if c = 0x22 then
            (case scan_string Plain [] cs of
               None \<Rightarrow> Inl SyntaxError
             | Some (k, r) \<Rightarrow>
                 (case skip_ws r of
                    [] \<Rightarrow> Inl SyntaxError
                  | d # ds \<Rightarrow>
                      if d = 0x3A then
                        (case parse_value n ds of
                           Inl e \<Rightarrow> Inl e
                         | Inr (v, r') \<Rightarrow> Inr ((k, v), r'))
                      else Inl SyntaxError))
          else Inl SyntaxError)"
| "parse_object_rest 0 acc s = Inl OutOfFuel"
| "parse_object_rest (Suc n) acc s =
     (case skip_ws s of
        [] \<Rightarrow> Inl SyntaxError
      | c # cs \<Rightarrow>
          if c = 0x7D then
            Inr (if keys_modelled (map fst acc)
                 then map_option JObject
                        (all_some (map (\<lambda>kv. map_option (Pair (fst kv)) (snd kv)) (rev acc)))
                 else None, cs)
          else if c = 0x2C then
            (case parse_member n cs of
               Inl e \<Rightarrow> Inl e
             | Inr (kv, r) \<Rightarrow> parse_object_rest n (kv # acc) r)
          else Inl SyntaxError)"

text \<open>
  \<^verbatim>\<open>JSON.parse\<close>: one value, with nothing but white space behind it. \<open>Unmodelled\<close>
  is the answer for a JSON text with a value outside the model.
\<close>

definition JSON_parse :: "jsstring \<Rightarrow> js_error + json" where
  "JSON_parse content =
     (case parse_value (Suc (length content)) content of
        Inl e \<Rightarrow> Inl e
      | Inr (v, r) \<Rightarrow>
          if skip_ws r \<noteq> [] then Inl SyntaxError
          else (case v of None \<Rightarrow> Inl Unmodelled | Some j \<Rightarrow> Inr j))"

section \<open>The file of high scores\<close>

text \<open>
  The file \<^verbatim>\<open>HIGHSCORE_FILE\<close> is what the program reads of it as text: \<open>None\<close>
  when there is no such file. \<^verbatim>\<open>fs.readFile(path, 'utf8')\<close> throws then.
  \<^verbatim>\<open>fs.writeFile\<close> stores the text as UTF-8, so each lone surrogate of the string
  comes back as U+FFFD; the write itself is taken to succeed.
\<close>

type_synonym file_system = "jsstring option"

definition readFile :: "file_system \<Rightarrow> js_error + jsstring" where
  "readFile f = (case f of None \<Rightarrow> Inl NoSuchFile | Some content \<Rightarrow> Inr content)"

fun utf8_scrub :: "jsstring \<Rightarrow> jsstring" where
  "utf8_scrub [] = []"
| "utf8_scrub [c] = (if is_surrogate c then [0xFFFD] else [c])"
| "utf8_scrub (c # d # cs) =
     (if is_high_surrogate c \<and> is_low_surrogate d then c # d # utf8_scrub cs
      else if is_surrogate c then 0xFFFD # utf8_scrub (d # cs)
      else c # utf8_scrub (d # cs))"

definition writeFile :: "file_system \<Rightarrow> jsstring \<Rightarrow> file_system" where
  "writeFile f content = Some (utf8_scrub content)"

section \<open>The leaderboard: \<^verbatim>\<open>loadHighScores\<close>, \<^verbatim>\<open>saveHighScore\<close>, \<^verbatim>\<open>resetHighScores\<close> (lines 15-50)\<close>

text \<open>
  \<^verbatim>\<open>loadHighScores\<close> (lines 15-22): whatever the read or the parse throws is caught
  and the empty array is returned; otherwise the parsed value is returned as it is.
  The model's own answers \<open>Unmodelled\<close> and \<open>OutOfFuel\<close> are no exceptions and
  are passed on.
\<close>

definition loadHighScores :: "file_system \<Rightarrow> js_error + json" where
  "loadHighScores f =
     (case readFile f of
        Inl _ \<Rightarrow> Inr (JArray [])
      | Inr content \<Rightarrow>
          (case JSON_parse content of
             Inl Unmodelled \<Rightarrow> Inl Unmodelled
           | Inl OutOfFuel \<Rightarrow> Inl OutOfFuel
           | Inl _ \<Rightarrow> Inr (JArray [])
           | Inr v \<Rightarrow> Inr v))"

text \<open>
  A score record, as line 27 builds it: \<^verbatim>\<open>{ name, score, date }\<close>, the properties
  in this order. The score of a round is an integer (line 164).
\<close>

record entry =
  name :: jsstring
  score :: int
  date :: jsstring

definition entry_to_json :: "entry \<Rightarrow> json" where
  "entry_to_json e =
     JObject [(js ''name'', JString (name e)), (js ''score'', JNumber (score e)),
              (js ''date'', JString (date e))]"

text \<open>
  The records of a parsed file. \<^verbatim>\<open>saveHighScore\<close> is modelled on the files it
  writes itself: an array of objects of exactly this shape.
\<close>

definition json_to_entry :: "json \<Rightarrow> entry option" where
  "json_to_entry v =
     (case v of
        JObject [(k1, JString n), (k2, JNumber s), (k3, JString d)] \<Rightarrow>
          if k1 = js ''name'' \<and> k2 = js ''score'' \<and> k3 = js ''date''
          then Some \<lparr>name = n, score = s, date = d\<rparr> else None
      | _ \<Rightarrow> None)"

definition leaderboard_of :: "json \<Rightarrow> entry list option" where
  "leaderboard_of v =
     (case v of JArray items \<Rightarrow> all_some (map json_to_entry items) | _ \<Rightarrow> None)"

text \<open>
  \<^verbatim>\<open>Array.prototype.sort\<close> with a comparison function (line 28) is a stable sort:
  \<open>x\<close> goes before \<open>y\<close> when \<open>cmp x y < 0\<close>, and elements that compare equal keep
  their order. The model is the insertion sort that inserts from the right, each
  element in front of the first one it does not have to follow.
\<close>

fun insert_sorted :: "('a \<Rightarrow> 'a \<Rightarrow> int) \<Rightarrow> 'a \<Rightarrow> 'a list \<Rightarrow> 'a list" where
  "insert_sorted cmp x [] = [x]"
| "insert_sorted cmp x (y # ys) =
     (if cmp x y \<le> 0 then x # y # ys else y # insert_sorted cmp x ys)"

definition js_sort :: "('a \<Rightarrow> 'a \<Rightarrow> int) \<Rightarrow> 'a list \<Rightarrow> 'a list" where
  "js_sort cmp xs = foldr (insert_sorted cmp) xs []"

text \<open>The comparison function of line 28: \<^verbatim>\<open>(a, b) => b.score - a.score\<close>.\<close>

definition by_score_desc :: "entry \<Rightarrow> entry \<Rightarrow> int" where
  "by_score_desc a b = score b - score a"

text \<open>
  Lines 27-29: \<^verbatim>\<open>push\<close> the new record, \<^verbatim>\<open>sort\<close>, and \<^verbatim>\<open>splice(5)\<close>, which
  removes everything from index 5 on.
\<close>

definition merge_high_score :: "entry list \<Rightarrow> entry \<Rightarrow> entry list" where
  "merge_high_score highScores e = take 5 (js_sort by_score_desc (highScores @ [e]))"

text \<open>
  \<^verbatim>\<open>saveHighScore(score, name)\<close> (lines 25-31); \<open>now\<close> is what
  \<^verbatim>\<open>new Date().toISOString()\<close> returns. \<^verbatim>\<open>push\<close> on a value that is not an
  array throws a \<^verbatim>\<open>TypeError\<close>.
\<close>

definition saveHighScore ::
  "file_system \<Rightarrow> jsstring \<Rightarrow> int \<Rightarrow> jsstring \<Rightarrow> js_error + file_system" where
  "saveHighScore f now score' name' =
     (case loadHighScores f of
        Inl e \<Rightarrow> Inl e
      | Inr (JArray items) \<Rightarrow>
          (case all_some (map json_to_entry items) of
             None \<Rightarrow> Inl Unmodelled
           | Some highScores \<Rightarrow>
               Inr (writeFile f (JSON_stringify (JArray (map entry_to_json
                 (merge_high_score highScores
                    \<lparr>name = name', score = score', date = now\<rparr>))))))
      | Inr _ \<Rightarrow> Inl TypeError)"

text \<open>\<^verbatim>\<open>resetHighScores\<close> (lines 47-50) writes the empty array.\<close>

definition resetHighScores :: "file_system \<Rightarrow> file_system" where
  "resetHighScores f = writeFile f (JSON_stringify (JArray []))"

section \<open>The board: \<^verbatim>\<open>shuffle\<close> and \<^verbatim>\<open>createBoard\<close> (lines 12, 53-69)\<close>

text \<open>
  \<^verbatim>\<open>shuffle\<close> writes into the array it is given, so arrays live in a store: an
  address is an index into the list of all arrays, and a new array gets the next
  index. The module's array \<^verbatim>\<open>symbols\<close> (line 12) is the first one.
\<close>

type_synonym heap = "jsstring list list"

definition symbols_init :: "jsstring list" where
  "symbols_init = map js [''A'', ''A'', ''B'', ''B'', ''C'', ''C'', ''D'', ''D'',
                          ''E'', ''E'', ''F'', ''F'', ''G'', ''G'', ''H'', ''H'']"

definition symbols :: nat where
  "symbols = 0"

definition initial_heap :: heap where
  "initial_heap = [symbols_init]"

text \<open>The spread \<^verbatim>\<open>[...symbols]\<close>: a new array with the same elements.\<close>

definition spread_copy :: "heap \<Rightarrow> nat \<Rightarrow> heap \<times> nat" where
  "spread_copy h a = (h @ [h ! a], length h)"

text \<open>
  \<^verbatim>\<open>Math.floor(Math.random() * (i + 1))\<close> (line 55) in the arithmetic of the code,
  IEEE 754 doubles with rounding to nearest, ties to even. A double in \<open>[0, 1)\<close> is a
  whole number of units of \<open>2 ^ -1074\<close>, a number with at most 53 significant bits.
  The integer \<open>i + 1\<close> is a double as it is, so the exact product is a whole number of
  units too, and the product the code computes is that number rounded to 53 significant
  bits: with \<open>b\<close> bits, to the nearest multiple of \<open>2 ^ (b - 53)\<close>, to the even one of
  two nearest. (A number of fewer than \<open>2 ^ 53\<close> units is a double: these are the
  subnormal numbers and the first normal ones. The product is below \<open>2 ^ 53\<close>, far from
  overflow, as long as \<open>i + 1\<close> is; an array has fewer than \<open>2 ^ 32\<close> elements.)
  \<^verbatim>\<open>Math.floor\<close> is exact.
\<close>

fun bit_length :: "nat \<Rightarrow> nat" where
  "bit_length n = (if n = 0 then 0 else Suc (bit_length (n div 2)))"

declare bit_length.simps [simp del]

definition round_half_even :: "nat \<Rightarrow> nat \<Rightarrow> nat" where
  "round_half_even s n =
     (let q = n div 2 ^ s; r = n mod 2 ^ s
      in if 2 * r < 2 ^ s \<or> (2 * r = 2 ^ s \<and> even q) then q * 2 ^ s else (q + 1) * 2 ^ s)"

definition round53 :: "nat \<Rightarrow> nat" where
  "round53 n = round_half_even (bit_length n - 53) n"

definition double_units :: "real \<Rightarrow> nat" where
  "double_units x = nat \<lfloor>x * 2 ^ 1074\<rfloor>"

text \<open>The real numbers from 0 up to the largest double that are doubles.\<close>

definition is_double :: "real \<Rightarrow> bool" where
  "is_double x =
     (0 \<le> x \<and> real (double_units x) = x * 2 ^ 1074 \<and>
      round53 (double_units x) = double_units x)"

text \<open>\<^verbatim>\<open>Math.floor(x * n)\<close> for a double \<open>x\<close> in \<open>[0, 1)\<close> and an integer \<open>n\<close>.\<close>

definition floor_times :: "real \<Rightarrow> nat \<Rightarrow> nat" where
  "floor_times x n = round53 (double_units x * n) div 2 ^ 1074"

text \<open>
  The loop of \<^verbatim>\<open>shuffle\<close> (lines 54-57), from \<open>i\<close> down to 1. \<^verbatim>\<open>Math.random()\<close> is
  a double in \<open>[0, 1)\<close>: \<open>rnd k\<close> is the \<open>k\<close>-th number the process draws, and the
  count of numbers drawn is threaded through. The destructuring assignment reads both
  elements before it writes \<^verbatim>\<open>array[i]\<close> and then \<^verbatim>\<open>array[j]\<close>. With \<open>rnd k\<close> a
  double in \<open>[0, 1)\<close> the index \<open>j\<close> is at most \<open>i\<close> (\<open>floor_times_less\<close>); the
  model says nothing useful for other values of \<open>rnd\<close>, and the theorems about the
  shuffled array assume that every \<open>rnd k\<close> is such a double.
\<close>

fun shuffle_loop :: "(nat \<Rightarrow> real) \<Rightarrow> nat \<Rightarrow> heap \<Rightarrow> nat \<Rightarrow> nat \<Rightarrow> heap \<times> nat" where
  "shuffle_loop rnd k h array 0 = (h, k)"
| "shuffle_loop rnd k h array (Suc i') =
     (let i = Suc i';
          j = floor_times (rnd k) (i + 1);
          a = h ! array;
          h' = h[array := a[i := a ! j, j := a ! i]]
      in shuffle_loop rnd (Suc k) h' array i')"

definition shuffle :: "(nat \<Rightarrow> real) \<Rightarrow> nat \<Rightarrow> heap \<Rightarrow> nat \<Rightarrow> heap \<times> nat" where
  "shuffle rnd k h array = shuffle_loop rnd k h array (length (h ! array) - 1)"

text \<open>\<^verbatim>\<open>xs.slice(start, end)\<close> for \<open>start \<le> end\<close>: a new array.\<close>

definition array_slice :: "'a list \<Rightarrow> nat \<Rightarrow> nat \<Rightarrow> 'a list" where
  "array_slice xs start end = take (end - start) (drop start xs)"

text \<open>
  \<^verbatim>\<open>createBoard\<close> (lines 62-69) returns the board; the store and the count of random
  numbers drawn are returned with it.
\<close>

definition createBoard :: "(nat \<Rightarrow> real) \<Rightarrow> nat \<Rightarrow> heap \<Rightarrow> jsstring list list \<times> heap \<times> nat" where
  "createBoard rnd k h =
     (let (h1, shuffled) = spread_copy h symbols;
          (h2, k') = shuffle rnd k h1 shuffled;
          rows = map (\<lambda>i. array_slice (h2 ! shuffled) (i * 4) ((i + 1) * 4)) [0..<4]
      in (rows, h2, k'))"

text \<open>The store after \<open>n\<close> boards have been created, one after the other.\<close>

fun create_boards :: "(nat \<Rightarrow> real) \<Rightarrow> nat \<Rightarrow> heap \<Rightarrow> nat \<Rightarrow> heap \<times> nat" where
  "create_boards rnd k h 0 = (h, k)"
| "create_boards rnd k h (Suc n) =
     (let (rows, h', k') = createBoard rnd k h in create_boards rnd k' h' n)"

section \<open>Coordinates: \<^verbatim>\<open>parseCoordinates\<close> (lines 85-91)\<close>

text \<open>
  The regular expression \<^verbatim>\<open>/^[1-4],[1-4]$/\<close>. It has no flags, so \<^verbatim>\<open>^\<close> and
  \<^verbatim>\<open>$\<close> are the two ends of the input and the match is the whole string: one code
  unit of the class \<^verbatim>\<open>[1-4]\<close>, a comma, one more code unit of the class.
\<close>

definition class_1_4 :: "jschar \<Rightarrow> bool" where
  "class_1_4 c = (0x31 \<le> c \<and> c \<le> 0x34)"

fun regex_test :: "jsstring \<Rightarrow> bool" where
  "regex_test [a, b, c] = (class_1_4 a \<and> b = 0x2C \<and> class_1_4 c)"
| "regex_test _ = False"

text \<open>\<^verbatim>\<open>input.split(',')\<close>: the pieces between the separators, in order.\<close>

fun js_split :: "jschar \<Rightarrow> jsstring \<Rightarrow> jsstring list" where
  "js_split sep [] = [[]]"
| "js_split sep (c # cs) =
     (if c = sep then [] # js_split sep cs
      else (case js_split sep cs of
              p # ps \<Rightarrow> (c # p) # ps
            | [] \<Rightarrow> [[c]]))"

text \<open>
  \<^verbatim>\<open>parseCoordinates\<close>: the guard throws, otherwise the two pieces are read as
  numbers and made 0-based; the array pattern \<^verbatim>\<open>[row, col]\<close> takes the first two
  elements. Behind the guard both pieces are digits, so the last branch (a piece that
  is \<^verbatim>\<open>NaN\<close> or missing) stands for values the model does not represent; it is
  shown unreachable below (\<open>parseCoordinates_modelled\<close>).
\<close>

definition parseCoordinates :: "jsstring \<Rightarrow> js_error + (int \<times> int)" where
  "parseCoordinates input =
     (if \<not> regex_test input
      then Inl (Error ''Invalid format. Use coordinates (e.g., 1,2).'')
      else (case map (\<lambda>num. map_option (\<lambda>n. n - 1) (parseInt num)) (js_split 0x2C input) of
              Some row # Some col # _ \<Rightarrow> Inr (row, col)
            | _ \<Rightarrow> Inl Unmodelled))"

section \<open>The round: \<^verbatim>\<open>playGame\<close> (lines 94-176)\<close>

text \<open>
  The board and the reveal mask are arrays of four rows of four cells; \<^verbatim>\<open>g[r][c]\<close>
  reads a cell and \<^verbatim>\<open>g[r][c] = v\<close> writes one. The rows of the mask are four
  separate arrays (line 96 builds each with its own \<^verbatim>\<open>Array(4).fill(false)\<close>), so
  a write changes one cell only.
\<close>

definition get_cell :: "'a list list \<Rightarrow> int \<Rightarrow> int \<Rightarrow> 'a" where
  "get_cell g r c = g ! nat r ! nat c"

definition set_cell :: "'a list list \<Rightarrow> int \<Rightarrow> int \<Rightarrow> 'a \<Rightarrow> 'a list list" where
  "set_cell g r c v = g[nat r := (g ! nat r)[nat c := v]]"

text \<open>
  The loop of \<^verbatim>\<open>playGame\<close> stops at two prompts per turn. The program point is part
  of the state: which prompt is open, and behind the second prompt the first pick
  \<^verbatim>\<open>row1, col1\<close>. \<open>Finished\<close> is the exit of the loop (line 103 fails), \<open>Crashed\<close>
  an exception thrown outside every \<^verbatim>\<open>try\<close> (lines 122 and 144).
\<close>

datatype phase =
    AwaitFirst
  | AwaitSecond int int
  | Finished
  | Crashed

record round =
  board :: "jsstring list list"
  revealed :: "bool list list"
  moves :: nat
  matches :: nat
  phase :: phase

text \<open>Lines 95-98, with the board given; the loop test of line 103 holds (0 < 8).\<close>

definition new_round :: "jsstring list list \<Rightarrow> round" where
  "new_round b =
     \<lparr>board = b, revealed = replicate 4 (replicate 4 False), moves = 0, matches = 0,
      phase = AwaitFirst\<rparr>"

text \<open>
  The \<^verbatim>\<open>validate\<close> callbacks of the two prompts (lines 112-119 and 132-141). Each
  returns \<^verbatim>\<open>true\<close> or the message to show; neither writes anything.
\<close>

datatype validation =
    Accept
  | Reject string

definition validate_first :: "bool list list \<Rightarrow> jsstring \<Rightarrow> validation" where
  "validate_first flags input =
     (case parseCoordinates input of
        Inl _ \<Rightarrow> Reject ''Invalid format. Use coordinates (e.g., 1,2).''
      | Inr (row, col) \<Rightarrow>
          if \<not> get_cell flags row col then Accept else Reject ''Card already revealed!'')"

definition validate_second :: "bool list list \<Rightarrow> int \<Rightarrow> int \<Rightarrow> jsstring \<Rightarrow> validation" where
  "validate_second flags row1 col1 input =
     (case parseCoordinates input of
        Inl _ \<Rightarrow> Reject ''Invalid format. Use coordinates (e.g., 2,3).''
      | Inr (row, col) \<Rightarrow>
          if \<not> (get_cell flags row col \<or> (row = row1 \<and> col = col1)) then Accept
          else Reject ''Invalid or already revealed card!'')"

text \<open>
  One line typed at the first prompt (lines 107-124). The prompt library keeps the
  prompt open and shows the message while \<^verbatim>\<open>validate\<close> does not return
  \<^verbatim>\<open>true\<close>; an accepted line is parsed again (line 122) and the cell is revealed
  (line 123). The second component is the message shown, if any.
\<close>

definition answer_first :: "round \<Rightarrow> jsstring \<Rightarrow> round \<times> string option" where
  "answer_first g input =
     (case validate_first (revealed g) input of
        Reject msg \<Rightarrow> (g, Some msg)
      | Accept \<Rightarrow>
          (case parseCoordinates input of
             Inl _ \<Rightarrow> (g\<lparr>phase := Crashed\<rparr>, None)
           | Inr (row1, col1) \<Rightarrow>
               (g\<lparr>revealed := set_cell (revealed g) row1 col1 True,
                  phase := AwaitSecond row1 col1\<rparr>, None)))"

text \<open>
  One line typed at the second prompt, and the rest of the loop body (lines 127-160)
  up to the loop test (line 103).
\<close>

definition answer_second :: "round \<Rightarrow> int \<Rightarrow> int \<Rightarrow> jsstring \<Rightarrow> round \<times> string option" where
  "answer_second g row1 col1 input =
     (case validate_second (revealed g) row1 col1 input of
        Reject msg \<Rightarrow> (g, Some msg)
      | Accept \<Rightarrow>
          (case parseCoordinates input of
             Inl _ \<Rightarrow> (g\<lparr>phase := Crashed\<rparr>, None)
           | Inr (row2, col2) \<Rightarrow>
               (let rev2 = set_cell (revealed g) row2 col2 True;
                    moves' = moves g + 1;
                    is_match = (get_cell (board g) row1 col1 = get_cell (board g) row2 col2);
                    matches' = (if is_match then matches g + 1 else matches g);
                    rev3 = (if is_match then rev2
                            else set_cell (set_cell rev2 row1 col1 False) row2 col2 False)
                in (g\<lparr>revealed := rev3, moves := moves', matches := matches',
                      phase := (if matches' < 8 then AwaitFirst else Finished)\<rparr>, None))))"

definition step :: "round \<Rightarrow> jsstring \<Rightarrow> round \<times> string option" where
  "step g input =
     (case phase g of
        AwaitFirst \<Rightarrow> answer_first g input
      | AwaitSecond row1 col1 \<Rightarrow> answer_second g row1 col1 input
      | Finished \<Rightarrow> (g, None)
      | Crashed \<Rightarrow> (g, None))"

text \<open>The state after the player has typed the given lines, one after the other.\<close>

definition play :: "round \<Rightarrow> jsstring list \<Rightarrow> round" where
  "play g inputs = foldl (\<lambda>g' input. fst (step g' input)) g inputs"

text \<open>
  Line 164: the score of a round that took \<open>n\<close> moves. The counter is a natural
  number, the score an integer.
\<close>

definition score_of_moves :: "nat \<Rightarrow> int" where
  "score_of_moves n = max (100 - int n * 5) 10"

section \<open>Notions used in the statements\<close>

text \<open>
  A position of the 4-by-4 grid, the shape of a grid, and the first pick remembered
  behind the second prompt being such a position.
\<close>

definition in_range :: "int \<Rightarrow> int \<Rightarrow> bool" where
  "in_range r c = (0 \<le> r \<and> r < 4 \<and> 0 \<le> c \<and> c < 4)"

definition mask_ok :: "'a list list \<Rightarrow> bool" where
  "mask_ok m = (length m = 4 \<and> (\<forall>row \<in> set m. length row = 4))"

definition pick_ok :: "phase \<Rightarrow> bool" where
  "pick_ok ph = (case ph of AwaitSecond r1 c1 \<Rightarrow> in_range r1 c1 | _ \<Rightarrow> True)"

text \<open>
  The shuffle in the words of the specification, on a list: for the index \<open>i\<close> from
  the last one down to 1, swap the element at \<open>i\<close> with the element at the index
  \<open>pick i\<close> chosen for it.
\<close>

definition swap_at :: "nat \<Rightarrow> nat \<Rightarrow> 'a list \<Rightarrow> 'a list" where
  "swap_at i j xs = xs[i := xs ! j, j := xs ! i]"

fun fisher_yates :: "(nat \<Rightarrow> nat) \<Rightarrow> nat \<Rightarrow> 'a list \<Rightarrow> 'a list" where
  "fisher_yates pick 0 xs = xs"
| "fisher_yates pick (Suc i) xs = fisher_yates pick i (swap_at (Suc i) (pick (Suc i)) xs)"

text \<open>A leaderboard for the examples, and two new records.\<close>

definition example_scores :: "entry list" where
  "example_scores =
     [\<lparr>name = js ''a'', score = 90, date = js ''2024-01-01T00:00:00.000Z''\<rparr>,
      \<lparr>name = js ''b'', score = 80, date = js ''2024-01-02T00:00:00.000Z''\<rparr>,
      \<lparr>name = js ''c'', score = 70, date = js ''2024-01-03T00:00:00.000Z''\<rparr>,
      \<lparr>name = js ''d'', score = 60, date = js ''2024-01-04T00:00:00.000Z''\<rparr>,
      \<lparr>name = js ''e'', score = 50, date = js ''2024-01-05T00:00:00.000Z''\<rparr>]"

definition example_entry :: "int \<Rightarrow> entry" where
  "example_entry n = \<lparr>name = js ''new'', score = n, date = js ''2024-02-01T00:00:00.000Z''\<rparr>"

text \<open>
  A board and a round for the examples: on this board the player has matched the two
  \<^verbatim>\<open>C\<close> of the second row and has then picked the cell \<^verbatim>\<open>1,1\<close> first.
\<close>

definition example_board :: "jsstring list list" where
  "example_board =
     [[js ''A'', js ''A'', js ''B'', js ''B''],
      [js ''C'', js ''C'', js ''D'', js ''D''],
      [js ''E'', js ''E'', js ''F'', js ''F''],
      [js ''G'', js ''G'', js ''H'', js ''H'']]"

definition example_round :: round where
  "example_round = play (new_round example_board) [js ''2,1'', js ''2,2'', js ''1,1'']"

text \<open>
  Notions for the persisted leaderboard: scores that a double holds exactly; a string
  with no lone surrogate, which UTF-8 stores as it is; a text that may follow a number;
  the text of one record inside the array, and of the array behind its first record;
  and the fuel being enough for every text shorter than it.
\<close>

definition safe_scores :: "entry list \<Rightarrow> bool" where
  "safe_scores es = (\<forall>e \<in> set es. \<bar>score e\<bar> \<le> 9007199254740992)"

definition well_formed :: "jsstring \<Rightarrow> bool" where
  "well_formed s = (utf8_scrub s = s)"

definition number_end :: "jsstring \<Rightarrow> bool" where
  "number_end rest =
     (case rest of
        [] \<Rightarrow> True
      | c # _ \<Rightarrow> \<not> is_digit c \<and> c \<noteq> 0x2E \<and> c \<noteq> 0x65 \<and> c \<noteq> 0x45)"

definition entry_text :: "entry \<Rightarrow> jsstring" where
  "entry_text e = stringify_at 1 (entry_to_json e)"

definition tail_text :: "entry list \<Rightarrow> jsstring" where
  "tail_text es =
     concat (map (\<lambda>e. 0x2C # newline_indent 1 @ entry_text e) es) @ newline_indent 0 @ [0x5D]"













chapter \<open>Properties\<close>

section \<open>The score\<close>

text \<open>
  Claim C1. The score of a round is \<open>max (100 - moves * 5) 10\<close>: it does not increase
  with the number of moves, it is never below 10, and 0, 8 and 30 moves give 100, 60
  and 10.
\<close>

theorem score_of_moves_properties:
  "score_of_moves n = max (100 - int n * 5) 10 \<and>
   (m \<le> n \<longrightarrow> score_of_moves n \<le> score_of_moves m) \<and>
   10 \<le> score_of_moves n \<and>
   score_of_moves 0 = 100 \<and> score_of_moves 8 = 60 \<and> score_of_moves 30 = 10"
  by (auto simp add: score_of_moves_def)

theorem score_of_moves_properties_witness:
  "(8::nat) \<le> 30 \<and> score_of_moves 30 \<le> score_of_moves 8 \<and> score_of_moves 30 = 10 \<and>
   score_of_moves 8 = 60"
  using score_of_moves_properties [of 30 8] by simp

section \<open>Coordinates\<close>

lemma class_1_4_unat: "class_1_4 c \<longleftrightarrow> 49 \<le> unat c \<and> unat c \<le> 52"
  by (simp add: class_1_4_def word_le_nat_alt)

lemma digit_of_class: "class_1_4 c \<Longrightarrow> digit_of 10 c = Some (unat c - 48)"
  by (auto simp add: class_1_4_unat digit_of_def word_le_nat_alt Let_def)

lemma class_not_special:
  "class_1_4 c \<Longrightarrow> \<not> is_space c \<and> c \<noteq> 0x2D \<and> c \<noteq> 0x2B \<and> c \<noteq> 0x2C"
  by (auto simp add: class_1_4_unat is_space_def word_le_nat_alt)

lemma parseInt_digit:
  assumes "class_1_4 c"
  shows "parseInt [c] = Some (uint c - 48)"
proof -
  have "49 \<le> unat c" using assms by (simp add: class_1_4_unat)
  then show ?thesis
    using class_not_special [OF assms] digit_of_class [OF assms]
    by (simp add: parseInt_def)
qed

lemma split_coord:
  assumes "class_1_4 a" "class_1_4 b"
  shows "js_split 0x2C [a, 0x2C, b] = [[a], [b]]"
  using class_not_special [OF assms(1)] class_not_special [OF assms(2)] by simp

lemma parseCoordinates_match:
  assumes "class_1_4 a" "class_1_4 b"
  shows "parseCoordinates [a, 0x2C, b] = Inr (uint a - 49, uint b - 49)"
proof -
  have "regex_test [a, 0x2C, b]" using assms by simp
  then show ?thesis
    unfolding parseCoordinates_def
    by (simp only: split_coord [OF assms] parseInt_digit assms list.map option.map
        list.case option.case if_False not_True_eq_False simp_thms) simp
qed

lemma regex_test_iff:
  "regex_test s \<longleftrightarrow> (\<exists>a b. s = [a, 0x2C, b] \<and> class_1_4 a \<and> class_1_4 b)"
  by (cases s rule: regex_test.cases) auto

lemma regex_test_words:
  "regex_test s \<longleftrightarrow>
     (\<exists>a b. s = [a, 0x2C, b] \<and> 0x31 \<le> a \<and> a \<le> 0x34 \<and> 0x31 \<le> b \<and> b \<le> 0x34)"
  by (cases s rule: regex_test.cases) (auto simp: class_1_4_def)

lemma parseCoordinates_no_match:
  "\<not> regex_test s \<Longrightarrow>
   parseCoordinates s = Inl (Error ''Invalid format. Use coordinates (e.g., 1,2).'')"
  by (simp add: parseCoordinates_def)

lemma parseCoordinates_Inr:
  assumes "parseCoordinates s = Inr (r, c)"
  shows "\<exists>a b. s = [a, 0x2C, b] \<and> class_1_4 a \<and> class_1_4 b \<and>
           r = uint a - 49 \<and> c = uint b - 49"
proof -
  have "regex_test s" using assms by (auto simp: parseCoordinates_def split: if_splits)
  then obtain a b where s: "s = [a, 0x2C, b]" "class_1_4 a" "class_1_4 b"
    by (auto simp: regex_test_iff)
  with assms parseCoordinates_match [OF s(2,3)] show ?thesis by auto
qed

lemma parseCoordinates_range: "parseCoordinates s = Inr (r, c) \<Longrightarrow> in_range r c"
  by (auto dest!: parseCoordinates_Inr simp: in_range_def class_1_4_def word_le_def)

text \<open>The branch of \<open>parseCoordinates\<close> that the model does not represent is never taken.\<close>

lemma parseCoordinates_modelled: "parseCoordinates s \<noteq> Inl Unmodelled"
proof (cases "regex_test s")
  case True
  then show ?thesis by (auto simp: regex_test_iff parseCoordinates_match)
next
  case False
  then show ?thesis by (simp add: parseCoordinates_no_match)
qed

lemma js_coord: "js [a, CHR '','', b] = [of_char a, 0x2C, of_char b]"
  by (simp add: js_def)

lemma parse_examples:
  "parseCoordinates (js ''1,1'') = Inr (0, 0)"
  "parseCoordinates (js ''1,2'') = Inr (0, 1)"
  "parseCoordinates (js ''2,1'') = Inr (1, 0)"
  "parseCoordinates (js ''2,2'') = Inr (1, 1)"
  by (simp_all add: js_coord parseCoordinates_match class_1_4_def)

text \<open>
  Claim C10. \<open>parseCoordinates\<close> returns a pair exactly on the three code units
  \<^verbatim>\<open>d,d\<close> with both digits in 1-4: the pair is the two digits less one, so both
  components are in 0-3. On every other string it throws the format error.
\<close>

theorem parseCoordinates_exact:
  "(if \<exists>a b. input = [a, 0x2C, b] \<and> 0x31 \<le> a \<and> a \<le> 0x34 \<and> 0x31 \<le> b \<and> b \<le> 0x34
    then parseCoordinates input = Inr (uint (input ! 0) - 0x31, uint (input ! 2) - 0x31) \<and>
         0 \<le> uint (input ! 0) - 0x31 \<and> uint (input ! 0) - 0x31 \<le> 3 \<and>
         0 \<le> uint (input ! 2) - 0x31 \<and> uint (input ! 2) - 0x31 \<le> 3
    else parseCoordinates input = Inl (Error ''Invalid format. Use coordinates (e.g., 1,2).''))"
proof (cases "regex_test input")
  case True
  then obtain a b where s: "input = [a, 0x2C, b]" "class_1_4 a" "class_1_4 b"
    unfolding regex_test_iff by blast
  have r: "0 \<le> uint a - 49 \<and> uint a - 49 \<le> 3 \<and> 0 \<le> uint b - 49 \<and> uint b - 49 \<le> 3"
    using s(2,3) by (simp add: class_1_4_def word_le_def)
  have n: "input ! 0 = a" "input ! 2 = b" unfolding s(1) by simp_all
  have p: "parseCoordinates input = Inr (uint a - 49, uint b - 49)"
    unfolding s(1) by (rule parseCoordinates_match [OF s(2,3)])
  show ?thesis
    unfolding n using True r p unfolding regex_test_words by (simp only: if_True simp_thms)
next
  case False
  show ?thesis
    using False parseCoordinates_no_match [OF False] unfolding regex_test_words
    by (simp only: if_False)
qed

lemma coord_shape:
  "(\<exists>a b. [x, y, z] = [a, 0x2C, b] \<and> 0x31 \<le> a \<and> a \<le> 0x34 \<and> 0x31 \<le> b \<and> b \<le> 0x34) \<longleftrightarrow>
     (y = 0x2C \<and> 0x31 \<le> x \<and> x \<le> 0x34 \<and> 0x31 \<le> z \<and> z \<le> (0x34::jschar))"
  "\<not> (\<exists>a b. x # y # z # u # us = [a, 0x2C, b] \<and> 0x31 \<le> a \<and> a \<le> 0x34 \<and>
        0x31 \<le> b \<and> b \<le> (0x34::jschar))"
  by simp_all

theorem parseCoordinates_exact_witness:
  "parseCoordinates (js ''1,2'') = Inr (0, 1) \<and>
   parseCoordinates (js ''4,4'') = Inr (3, 3) \<and>
   parseCoordinates (js '' 1,2'') = Inl (Error ''Invalid format. Use coordinates (e.g., 1,2).'') \<and>
   parseCoordinates (js ''1, 2'') = Inl (Error ''Invalid format. Use coordinates (e.g., 1,2).'') \<and>
   parseCoordinates (js ''01,2'') = Inl (Error ''Invalid format. Use coordinates (e.g., 1,2).'') \<and>
   parseCoordinates (js ''5,1'') = Inl (Error ''Invalid format. Use coordinates (e.g., 1,2).'')"
  using parseCoordinates_exact [of "js ''1,2''"] parseCoordinates_exact [of "js ''4,4''"]
    parseCoordinates_exact [of "js '' 1,2''"] parseCoordinates_exact [of "js ''1, 2''"]
    parseCoordinates_exact [of "js ''01,2''"] parseCoordinates_exact [of "js ''5,1''"]
  unfolding js_def list.map coord_shape by simp

section \<open>The grid\<close>

lemma mask_ok_set_cell:
  assumes "mask_ok m"
  shows "mask_ok (set_cell m r c v)"
proof (cases "nat r < length m")
  case True
  then have "length (m ! nat r) = 4" using assms by (simp add: mask_ok_def)
  then show ?thesis
    using assms
    by (auto simp: mask_ok_def set_cell_def dest!: set_update_subset_insert [THEN subsetD])
next
  case False
  then show ?thesis using assms by (simp add: set_cell_def list_update_beyond)
qed

lemma get_set_cell:
  assumes "mask_ok m" "in_range r c" "in_range r' c'"
  shows "get_cell (set_cell m r c v) r' c' = (if r = r' \<and> c = c' then v else get_cell m r' c')"
proof -
  have n: "nat r < length m" "nat r' < length m"
    using assms by (auto simp: mask_ok_def in_range_def)
  have l: "nat c < length (m ! nat r)" using assms n by (auto simp: mask_ok_def in_range_def)
  have e: "nat r = nat r' \<longleftrightarrow> r = r'" "nat c = nat c' \<longleftrightarrow> c = c'"
    using assms by (auto simp: in_range_def)
  show ?thesis using n l e by (auto simp: get_cell_def set_cell_def nth_list_update)
qed

lemma mask_ext:
  assumes "mask_ok m" "mask_ok m'"
    and "\<And>r c. in_range r c \<Longrightarrow> get_cell m r c = get_cell m' r c"
  shows "m = m'"
proof (rule nth_equalityI)
  show "length m = length m'" using assms by (simp add: mask_ok_def)
next
  fix i assume i: "i < length m"
  then have i4: "i < 4" using assms by (simp add: mask_ok_def)
  have li: "length (m ! i) = 4" "length (m' ! i) = 4"
    using assms(1,2) i by (auto simp: mask_ok_def)
  show "m ! i = m' ! i"
  proof (rule nth_equalityI)
    show "length (m ! i) = length (m' ! i)" using li by simp
  next
    fix j assume "j < length (m ! i)"
    then have "in_range (int i) (int j)" using i4 li by (simp add: in_range_def)
    from assms(3) [OF this] show "m ! i ! j = m' ! i ! j" by (simp add: get_cell_def)
  qed
qed

text \<open>Hiding two cells that were revealed in this turn gives the mask of before.\<close>

lemma hide_restores:
  assumes "mask_ok m" "in_range r1 c1" "in_range r2 c2"
    and "\<not> get_cell m r1 c1" "\<not> get_cell m r2 c2"
  shows "set_cell (set_cell (set_cell (set_cell m r1 c1 True) r2 c2 True) r1 c1 False) r2 c2 False = m"
  using assms by (intro mask_ext) (auto simp: mask_ok_set_cell get_set_cell)

lemma new_round_ok: "mask_ok (revealed (new_round b))"
  by (simp add: new_round_def mask_ok_def)

lemma mask0:
  "replicate 4 (replicate 4 False) =
     [[False, False, False, False], [False, False, False, False],
      [False, False, False, False], [False, False, False, False]]"
  by (simp add: numeral_eq_Suc)

section \<open>The round\<close>

lemma validate_first_Accept:
  "validate_first m s = Accept \<longleftrightarrow>
     (\<exists>r c. parseCoordinates s = Inr (r, c) \<and> \<not> get_cell m r c)"
  by (auto simp: validate_first_def split: sum.splits)

lemma validate_second_Accept:
  "validate_second m r1 c1 s = Accept \<longleftrightarrow>
     (\<exists>r c. parseCoordinates s = Inr (r, c) \<and> \<not> get_cell m r c \<and> \<not> (r = r1 \<and> c = c1))"
  by (auto simp: validate_second_def split: sum.splits)

lemma answer_second_accept:
  assumes "validate_second (revealed g) r1 c1 s = Accept" "parseCoordinates s = Inr (r2, c2)"
  shows "fst (answer_second g r1 c1 s) =
    (if get_cell (board g) r1 c1 = get_cell (board g) r2 c2
     then g\<lparr>revealed := set_cell (revealed g) r2 c2 True, moves := moves g + 1,
            matches := matches g + 1,
            phase := (if matches g + 1 < 8 then AwaitFirst else Finished)\<rparr>
     else g\<lparr>revealed :=
              set_cell (set_cell (set_cell (revealed g) r2 c2 True) r1 c1 False) r2 c2 False,
            moves := moves g + 1, matches := matches g,
            phase := (if matches g < 8 then AwaitFirst else Finished)\<rparr>)"
  using assms by (simp add: answer_second_def Let_def)

text \<open>
  A cell that is revealed and is not the pending first pick stays so through every
  line the player types: a pick is accepted only on a cell that is not revealed, and
  only the two picks of the turn are ever hidden.
\<close>

lemma step_keeps_revealed:
  assumes "mask_ok (revealed g)" "pick_ok (phase g)" "in_range r c"
    and "get_cell (revealed g) r c" "phase g \<noteq> AwaitSecond r c"
  shows "mask_ok (revealed (fst (step g s))) \<and> pick_ok (phase (fst (step g s))) \<and>
         get_cell (revealed (fst (step g s))) r c \<and> phase (fst (step g s)) \<noteq> AwaitSecond r c"
proof (cases "phase g")
  case AwaitFirst
  show ?thesis
  proof (cases "validate_first (revealed g) s")
    case Accept
    then obtain r1 c1 where p: "parseCoordinates s = Inr (r1, c1)" "\<not> get_cell (revealed g) r1 c1"
      by (auto simp: validate_first_Accept)
    have "in_range r1 c1" using p(1) by (rule parseCoordinates_range)
    then show ?thesis
      using assms AwaitFirst Accept p
      by (auto simp: step_def answer_first_def mask_ok_set_cell get_set_cell pick_ok_def)
  next
    case (Reject msg)
    then show ?thesis using assms AwaitFirst by (simp add: step_def answer_first_def)
  qed
next
  case (AwaitSecond r1 c1)
  then have r1: "in_range r1 c1" "\<not> (r1 = r \<and> c1 = c)" using assms by (auto simp: pick_ok_def)
  show ?thesis
  proof (cases "validate_second (revealed g) r1 c1 s")
    case Accept
    then obtain r2 c2 where p: "parseCoordinates s = Inr (r2, c2)" "\<not> get_cell (revealed g) r2 c2"
      by (auto simp: validate_second_Accept)
    have r2: "in_range r2 c2" using p(1) by (rule parseCoordinates_range)
    have ne: "\<not> (r2 = r \<and> c2 = c)" using p(2) assms(4) by auto
    show ?thesis
      using assms AwaitSecond Accept p r1 r2 ne
      by (auto simp: step_def answer_second_def mask_ok_set_cell get_set_cell pick_ok_def Let_def)
  next
    case (Reject msg)
    then show ?thesis using assms AwaitSecond by (simp add: step_def answer_second_def)
  qed
next
  case Finished
  then show ?thesis using assms by (simp add: step_def)
next
  case Crashed
  then show ?thesis using assms by (simp add: step_def)
qed

lemma play_keeps_revealed:
  assumes "mask_ok (revealed g)" "pick_ok (phase g)" "in_range r c"
    and "get_cell (revealed g) r c" "phase g \<noteq> AwaitSecond r c"
  shows "get_cell (revealed (play g inputs)) r c"
  using assms
proof (induction inputs arbitrary: g)
  case Nil
  then show ?case by (simp add: play_def)
next
  case (Cons s inputs)
  have "get_cell (revealed (play (fst (step g s)) inputs)) r c"
    using step_keeps_revealed [OF Cons.prems, of s] Cons.prems(3)
    by (intro Cons.IH) auto
  then show ?case by (simp add: play_def)
qed

text \<open>
  Claim C4. A turn in which both prompts accept a line reveals two different cells and
  counts one move. When the two symbols are equal the match count grows by one and
  both cells are revealed after every further input of the round; when they differ
  the match count is unchanged and both cells are hidden again when the turn ends
  (the mask is the one of before the turn).
\<close>

theorem turn_outcome:
  assumes "mask_ok (revealed g)" and "phase g = AwaitFirst"
    and "validate_first (revealed g) in1 = Accept"
    and "parseCoordinates in1 = Inr (r1, c1)"
    and "validate_second (revealed (play g [in1])) r1 c1 in2 = Accept"
    and "parseCoordinates in2 = Inr (r2, c2)"
  shows "(r1, c1) \<noteq> (r2, c2) \<and> moves (play g [in1, in2]) = moves g + 1 \<and>
    (if get_cell (board g) r1 c1 = get_cell (board g) r2 c2
     then matches (play g [in1, in2]) = matches g + 1 \<and>
          (\<forall>later. get_cell (revealed (play g (in1 # in2 # later))) r1 c1 \<and>
                   get_cell (revealed (play g (in1 # in2 # later))) r2 c2)
     else matches (play g [in1, in2]) = matches g \<and>
          \<not> get_cell (revealed (play g [in1, in2])) r1 c1 \<and>
          \<not> get_cell (revealed (play g [in1, in2])) r2 c2 \<and>
          revealed (play g [in1, in2]) = revealed g)"
proof -
  have r1: "in_range r1 c1" and r2: "in_range r2 c2"
    using assms(4,6) by (auto dest: parseCoordinates_range)
  have f1: "\<not> get_cell (revealed g) r1 c1"
    using assms(3,4) by (auto simp: validate_first_Accept)
  define g1 where "g1 = g\<lparr>revealed := set_cell (revealed g) r1 c1 True, phase := AwaitSecond r1 c1\<rparr>"
  have s1: "play g [in1] = g1"
    using assms(2,3,4) by (simp add: play_def step_def answer_first_def g1_def)
  have fld: "revealed g1 = set_cell (revealed g) r1 c1 True" "phase g1 = AwaitSecond r1 c1"
    "moves g1 = moves g" "matches g1 = matches g" "board g1 = board g"
    by (simp_all add: g1_def)
  have ok1: "mask_ok (revealed g1)" using assms(1) by (simp add: fld mask_ok_set_cell)
  have a2: "validate_second (revealed g1) r1 c1 in2 = Accept" using assms(5) s1 by simp
  then have v2: "\<not> get_cell (revealed g1) r2 c2" "\<not> (r2 = r1 \<and> c2 = c1)"
    using assms(6) by (auto simp: validate_second_Accept)
  then have f2: "\<not> get_cell (revealed g) r2 c2"
    using assms(1) r1 r2 by (auto simp: fld get_set_cell)
  define g2 where "g2 = fst (step g1 in2)"
  have s2: "\<And>later. play g (in1 # in2 # later) = play g2 later" "play g2 [] = g2"
    using s1 by (simp_all add: play_def g2_def)
  have st: "g2 = fst (answer_second g1 r1 c1 in2)" by (simp add: g2_def step_def fld)
  have mv: "moves g2 = moves g + 1"
    by (simp add: st answer_second_accept [OF a2 assms(6)] fld)
  show ?thesis
  proof (cases "get_cell (board g) r1 c1 = get_cell (board g) r2 c2")
    case True
    have g2: "revealed g2 = set_cell (revealed g1) r2 c2 True" "matches g2 = matches g + 1"
      "phase g2 = (if matches g + 1 < 8 then AwaitFirst else Finished)"
      using True by (simp_all add: st answer_second_accept [OF a2 assms(6)] fld)
    have ok2: "mask_ok (revealed g2)" "pick_ok (phase g2)"
      using ok1 by (simp_all add: g2 mask_ok_set_cell pick_ok_def)
    have c1: "get_cell (revealed g2) r1 c1" and c2: "get_cell (revealed g2) r2 c2"
      using assms(1) ok1 r1 r2 by (simp_all add: g2 get_set_cell) (simp_all add: fld get_set_cell)
    have ph: "phase g2 \<noteq> AwaitSecond r1 c1" "phase g2 \<noteq> AwaitSecond r2 c2"
      by (simp_all add: g2)
    have "get_cell (revealed (play g2 later)) r1 c1 \<and> get_cell (revealed (play g2 later)) r2 c2"
      for later
      using play_keeps_revealed [OF ok2 r1 c1 ph(1)] play_keeps_revealed [OF ok2 r2 c2 ph(2)]
      by simp
    then show ?thesis using True v2 mv g2(2) by (auto simp add: s2)
  next
    case False
    have g2: "revealed g2 =
        set_cell (set_cell (set_cell (revealed g1) r2 c2 True) r1 c1 False) r2 c2 False"
      "matches g2 = matches g"
      using False by (simp_all add: st answer_second_accept [OF a2 assms(6)] fld)
    have "revealed g2 = revealed g"
      unfolding g2 fld using hide_restores [OF assms(1) r1 r2 f1 f2] by simp
    then show ?thesis using False v2 mv f1 f2 g2(2) by (auto simp add: s2)
  qed
qed

theorem turn_outcome_witness:
  "mask_ok (revealed (new_round example_board)) \<and>
   phase (new_round example_board) = AwaitFirst \<and>
   validate_first (revealed (new_round example_board)) (js ''1,1'') = Accept \<and>
   parseCoordinates (js ''1,1'') = Inr (0, 0) \<and>
   validate_second (revealed (play (new_round example_board) [js ''1,1''])) 0 0 (js ''1,2'') = Accept \<and>
   parseCoordinates (js ''1,2'') = Inr (0, 1) \<and>
   get_cell example_board 0 0 = get_cell example_board 0 1 \<and>
   matches (play (new_round example_board) [js ''1,1'', js ''1,2'']) = 1 \<and>
   (\<forall>later. get_cell (revealed (play (new_round example_board) (js ''1,1'' # js ''1,2'' # later))) 0 0 \<and>
            get_cell (revealed (play (new_round example_board) (js ''1,1'' # js ''1,2'' # later))) 0 1) \<and>
   validate_second (revealed (play (new_round example_board) [js ''1,1''])) 0 0 (js ''2,1'') = Accept \<and>
   get_cell example_board 0 0 \<noteq> get_cell example_board 1 0 \<and>
   matches (play (new_round example_board) [js ''1,1'', js ''2,1'']) = 0 \<and>
   revealed (play (new_round example_board) [js ''1,1'', js ''2,1'']) =
     revealed (new_round example_board)"
proof -
  let ?g = "new_round example_board"
  have a: "mask_ok (revealed ?g)" by (rule new_round_ok)
  have b: "phase ?g = AwaitFirst" by (simp add: new_round_def)
  have c: "validate_first (revealed ?g) (js ''1,1'') = Accept"
    by (simp add: validate_first_def parse_examples new_round_def mask0 get_cell_def)
  have p1: "play ?g [js ''1,1''] =
      ?g\<lparr>revealed := set_cell (revealed ?g) 0 0 True, phase := AwaitSecond 0 0\<rparr>"
    using b c by (simp add: play_def step_def answer_first_def parse_examples)
  have d: "validate_second (revealed (play ?g [js ''1,1''])) 0 0 (js ''1,2'') = Accept"
    unfolding p1
    by (simp add: validate_second_def parse_examples new_round_def mask0 get_cell_def set_cell_def)
  have e: "validate_second (revealed (play ?g [js ''1,1''])) 0 0 (js ''2,1'') = Accept"
    unfolding p1
    by (simp add: validate_second_def parse_examples new_round_def mask0 get_cell_def set_cell_def)
  have f: "get_cell example_board 0 0 = get_cell example_board 0 1"
    "get_cell example_board 0 0 \<noteq> get_cell example_board 1 0"
    by (simp_all add: example_board_def get_cell_def js_def)
  have m: "matches ?g = 0" "board ?g = example_board" by (simp_all add: new_round_def)
  show ?thesis
    using turn_outcome [OF a b c parse_examples(1) d parse_examples(2)]
      turn_outcome [OF a b c parse_examples(1) e parse_examples(3)]
      a b c d e f
    by (simp add: m parse_examples)
qed

lemma example_round_eq:
  "example_round = \<lparr>board = example_board,
     revealed = [[True, False, False, False], [True, True, False, False],
                 [False, False, False, False], [False, False, False, False]],
     moves = 1, matches = 1, phase = AwaitSecond 0 0\<rparr>"
  by code_simp

text \<open>
  Claim C5. A line that is refused at a prompt (it does not parse, which covers
  coordinates outside 1-4; or its cell is already revealed; or, at the second prompt,
  it is the first pick) leaves the whole round as it was, mask, move count and match
  count included: the prompt shows a message and stays open, and the round goes on as
  if the line had not been typed.
\<close>

theorem failed_reveal_no_effect:
  assumes "phase g = AwaitFirst \<or> phase g = AwaitSecond r1 c1"
    and "(\<exists>e. parseCoordinates input = Inl e) \<or>
         (\<exists>r c. parseCoordinates input = Inr (r, c) \<and>
                (get_cell (revealed g) r c \<or> (phase g = AwaitSecond r1 c1 \<and> r = r1 \<and> c = c1)))"
  shows "(\<exists>msg. step g input = (g, Some msg)) \<and> play g (input # rest) = play g rest"
proof -
  have "\<exists>msg. step g input = (g, Some msg)"
    using assms
    by (auto simp: step_def answer_first_def answer_second_def validate_first_def
        validate_second_def)
  then show ?thesis by (auto simp: play_def)
qed

theorem failed_reveal_no_effect_witness:
  "phase example_round = AwaitSecond 0 0 \<and>
   parseCoordinates (js ''5,1'') = Inl (Error ''Invalid format. Use coordinates (e.g., 1,2).'') \<and>
   step example_round (js ''5,1'') =
     (example_round, Some ''Invalid format. Use coordinates (e.g., 2,3).'') \<and>
   play example_round [js ''5,1'', js ''1,2''] = play example_round [js ''1,2''] \<and>
   parseCoordinates (js ''2,2'') = Inr (1, 1) \<and> get_cell (revealed example_round) 1 1 \<and>
   step example_round (js ''2,2'') = (example_round, Some ''Invalid or already revealed card!'') \<and>
   play example_round [js ''2,2'', js ''1,2''] = play example_round [js ''1,2'']"
proof -
  have ph: "phase example_round = AwaitSecond 0 0" by (simp add: example_round_eq)
  have p1: "parseCoordinates (js ''5,1'') =
      Inl (Error ''Invalid format. Use coordinates (e.g., 1,2).'')"
    by code_simp
  have p2: "parseCoordinates (js ''2,2'') = Inr (1, 1)" by (rule parse_examples)
  have c2: "get_cell (revealed example_round) 1 1" by (simp add: example_round_eq get_cell_def)
  have s1: "step example_round (js ''5,1'') =
      (example_round, Some ''Invalid format. Use coordinates (e.g., 2,3).'')"
    by (simp add: step_def answer_second_def validate_second_def ph p1)
  have s2: "step example_round (js ''2,2'') =
      (example_round, Some ''Invalid or already revealed card!'')"
    by (simp add: step_def answer_second_def validate_second_def ph p2 c2)
  show ?thesis
    using failed_reveal_no_effect [of example_round 0 0 "js ''5,1''" "[js ''1,2'']"]
      failed_reveal_no_effect [of example_round 0 0 "js ''2,2''" "[js ''1,2'']"]
      ph p1 p2 c2 s1 s2
    by simp
qed

text \<open>
  Claim C6, as the code has it. The second prompt has one refusal for a cell that is
  already revealed and for the first pick: a line that names the first pick is refused
  with the message \<^verbatim>\<open>Invalid or already revealed card!\<close>, the round unchanged, and
  that is the very answer a line naming any revealed cell gets. The code has no error
  of its own for the first pick.
\<close>

theorem second_pick_same_as_first:
  assumes "phase g = AwaitSecond r1 c1" and "parseCoordinates input = Inr (r1, c1)"
    and "parseCoordinates other = Inr (r, c)" and "get_cell (revealed g) r c"
  shows "step g input = (g, Some ''Invalid or already revealed card!'') \<and>
         step g other = step g input"
  using assms by (simp add: step_def answer_second_def validate_second_def)

theorem second_pick_same_as_first_witness:
  "phase example_round = AwaitSecond 0 0 \<and> parseCoordinates (js ''1,1'') = Inr (0, 0) \<and>
   parseCoordinates (js ''2,2'') = Inr (1, 1) \<and> get_cell (revealed example_round) 1 1 \<and>
   step example_round (js ''1,1'') = (example_round, Some ''Invalid or already revealed card!'') \<and>
   step example_round (js ''2,2'') = step example_round (js ''1,1'')"
proof -
  have ph: "phase example_round = AwaitSecond 0 0" by (simp add: example_round_eq)
  have c2: "get_cell (revealed example_round) 1 1" by (simp add: example_round_eq get_cell_def)
  show ?thesis
    using second_pick_same_as_first [OF ph parse_examples(1) parse_examples(4) c2]
      ph c2 parse_examples(1,4)
    by simp
qed

text \<open>
  The claim as the specification words it fails: in \<open>example_round\<close> the first pick
  is the cell \<^verbatim>\<open>1,1\<close> and the cell \<^verbatim>\<open>2,2\<close> is revealed from an earlier match, and
  the second prompt answers the two lines alike, so the refusal of the first pick is
  not distinct from the refusal of a revealed cell.
\<close>

theorem same_as_first_not_distinct:
  "validate_second (revealed example_round) 0 0 (js ''1,1'') =
     validate_second (revealed example_round) 0 0 (js ''2,2'')"
  by (simp add: validate_second_def parse_examples example_round_eq get_cell_def)

section \<open>The leaderboard\<close>

lemma insert_sorted_insort:
  "insert_sorted by_score_desc x ys = insort_key (\<lambda>e. - score e) x ys"
  by (induction ys) (auto simp: by_score_desc_def)

lemma js_sort_sort_key: "js_sort by_score_desc xs = sort_key (\<lambda>e. - score e) xs"
  by (induction xs) (simp_all add: js_sort_def insert_sorted_insort)

lemma sorted_desc_sort:
  "sorted_wrt (\<lambda>a b. score b \<le> score a) (js_sort by_score_desc xs)"
proof -
  have "sorted (map (\<lambda>e. - score e) (sort_key (\<lambda>e. - score e) xs))" by (rule sorted_sort_key)
  then show ?thesis by (simp add: js_sort_sort_key sorted_map)
qed

lemma map_score_insert:
  "map score (insert_sorted by_score_desc x ys) =
     insert_sorted (\<lambda>a b. b - a) (score x) (map score ys)"
  by (induction ys) (simp_all add: by_score_desc_def)

lemma map_score_sort:
  "map score (js_sort by_score_desc xs) = js_sort (\<lambda>a b. b - a) (map score xs)"
  by (induction xs) (simp_all add: js_sort_def map_score_insert)

lemma length_js_sort: "length (js_sort by_score_desc xs) = length xs"
  by (simp add: js_sort_sort_key)

lemma mset_js_sort: "mset (js_sort by_score_desc xs) = mset xs"
  by (simp add: js_sort_sort_key)

lemma stable_js_sort:
  "filter (\<lambda>e. score e = k) (js_sort by_score_desc xs) = filter (\<lambda>e. score e = k) xs"
proof -
  have "filter (\<lambda>e. - score e = - k) (sort_key (\<lambda>e. - score e) xs) =
      filter (\<lambda>e. - score e = - k) xs"
    by (rule sort_key_stable)
  then show ?thesis by (simp add: js_sort_sort_key)
qed

lemma stable_sort_unique:
  assumes "mset s = mset xs"
    and "sorted_wrt (\<lambda>a b. score b \<le> score a) s"
    and "\<forall>k. filter (\<lambda>a. score a = k) s = filter (\<lambda>a. score a = k) xs"
  shows "js_sort by_score_desc xs = s"
proof -
  have "sorted (map (\<lambda>e. - score e) s)"
    using assms(2) by (simp add: sorted_map)
  moreover have "filter (\<lambda>x. - score k = - score x) s = filter (\<lambda>x. - score k = - score x) xs" for k
  proof -
    have e: "filter (\<lambda>x. - score k = - score x) ys = filter (\<lambda>a. score a = score k) ys" for ys
      by (rule filter_cong) auto
    show ?thesis unfolding e using assms(3) by (rule spec)
  qed
  ultimately have "sort_key (\<lambda>e. - score e) xs = s"
    using assms(1) by (intro properties_for_sort_key) auto
  then show ?thesis by (simp add: js_sort_sort_key)
qed

text \<open>
  Claim C2. The merge is: append the record, sort by descending score with ties in
  their order of before, keep the first five. So it is the first five of the stable
  sort of the appended list, and of every list that is a permutation of the appended
  list, sorted by descending score, with the records of each score in the order they
  had; it has five records, or all of them when there are fewer, sorted by descending
  score. Merging a record that scores 75 into records that score 90, 80, 70, 60, 50
  gives the scores 90, 80, 75, 70, 60.
\<close>

theorem merge_high_score_top5:
  "merge_high_score highScores e = take 5 (sort_key (\<lambda>a. - score a) (highScores @ [e])) \<and>
   (\<forall>s. mset s = mset highScores + {#e#} \<and> sorted_wrt (\<lambda>a b. score b \<le> score a) s \<and>
        (\<forall>k. filter (\<lambda>a. score a = k) s = filter (\<lambda>a. score a = k) (highScores @ [e])) \<longrightarrow>
        merge_high_score highScores e = take 5 s) \<and>
   length (merge_high_score highScores e) = min 5 (length highScores + 1) \<and>
   sorted_wrt (\<lambda>a b. score b \<le> score a) (merge_high_score highScores e) \<and>
   mset (js_sort by_score_desc (highScores @ [e])) = mset highScores + {#e#} \<and>
   (\<forall>k. filter (\<lambda>a. score a = k) (js_sort by_score_desc (highScores @ [e])) =
        filter (\<lambda>a. score a = k) (highScores @ [e])) \<and>
   (map score highScores = [90, 80, 70, 60, 50] \<and> score e = 75 \<longrightarrow>
      map score (merge_high_score highScores e) = [90, 80, 75, 70, 60])"
proof -
  have ex: "map score (merge_high_score highScores e) = [90, 80, 75, 70, 60]"
    if "map score highScores = [90, 80, 70, 60, 50]" "score e = 75"
  proof -
    have "map score (js_sort by_score_desc (highScores @ [e])) =
        js_sort (\<lambda>a b. b - a) [90, 80, 70, 60, 50, 75]"
      using that by (simp add: map_score_sort)
    also have "\<dots> = [90, 80, 75, 70, 60, 50]" by (simp add: js_sort_def)
    finally have "take 5 (map score (js_sort by_score_desc (highScores @ [e]))) =
        [90, 80, 75, 70, 60]"
      by simp
    then show ?thesis by (simp only: merge_high_score_def take_map)
  qed
  have key: "merge_high_score highScores e =
      take 5 (sort_key (\<lambda>a. - score a) (highScores @ [e]))"
    by (simp only: merge_high_score_def js_sort_sort_key)
  have uniq: "merge_high_score highScores e = take 5 s"
    if "mset s = mset highScores + {#e#}" "sorted_wrt (\<lambda>a b. score b \<le> score a) s"
      "\<forall>k. filter (\<lambda>a. score a = k) s = filter (\<lambda>a. score a = k) (highScores @ [e])" for s
    using stable_sort_unique [of s "highScores @ [e]"] that by (simp add: merge_high_score_def)
  have len: "length (merge_high_score highScores e) = min 5 (length highScores + 1)"
    by (simp add: merge_high_score_def length_js_sort)
  have srt: "sorted_wrt (\<lambda>a b. score b \<le> score a) (merge_high_score highScores e)"
    by (simp add: merge_high_score_def sorted_desc_sort sorted_wrt_take)
  have ms: "mset (js_sort by_score_desc (highScores @ [e])) = mset highScores + {#e#}"
    by (simp add: mset_js_sort)
  have stb: "filter (\<lambda>a. score a = k) (js_sort by_score_desc (highScores @ [e])) =
        filter (\<lambda>a. score a = k) (highScores @ [e])" for k
    by (rule stable_js_sort)
  show ?thesis
    by (intro conjI allI impI; (elim conjE)?;
        (rule key len srt ms stb | erule (2) uniq | erule (1) ex))
qed

theorem merge_high_score_top5_witness:
  "map score example_scores = [90, 80, 70, 60, 50] \<and> score (example_entry 75) = 75 \<and>
   map score (merge_high_score example_scores (example_entry 75)) = [90, 80, 75, 70, 60] \<and>
   map name (merge_high_score example_scores (example_entry 75)) =
     [js ''a'', js ''b'', js ''new'', js ''c'', js ''d''] \<and>
   map name (merge_high_score example_scores (example_entry 70)) =
     [js ''a'', js ''b'', js ''c'', js ''new'', js ''d''] \<and>
   merge_high_score [] (example_entry 70) = [example_entry 70]"
proof -
  have a: "map score example_scores = [90, 80, 70, 60, 50]" "score (example_entry 75) = 75"
    by (simp_all add: example_scores_def example_entry_def)
  have b: "map name (merge_high_score example_scores (example_entry 75)) =
      [js ''a'', js ''b'', js ''new'', js ''c'', js ''d'']"
    "map name (merge_high_score example_scores (example_entry 70)) =
      [js ''a'', js ''b'', js ''c'', js ''new'', js ''d'']"
    "merge_high_score [] (example_entry 70) = [example_entry 70]"
    by (simp_all add: merge_high_score_def js_sort_def by_score_desc_def example_scores_def
        example_entry_def)
  have c: "map score (merge_high_score example_scores (example_entry 75)) = [90, 80, 75, 70, 60]"
    using merge_high_score_top5 [of example_scores "example_entry 75"] a by blast
  show ?thesis using a b c by simp
qed

section \<open>The board\<close>

subsection \<open>The product of a random number and an integer, in doubles\<close>

lemma bit_length_0 [simp]: "bit_length 0 = 0"
  by (simp add: bit_length.simps)

lemma bit_length_pos: "0 < n \<Longrightarrow> bit_length n = Suc (bit_length (n div 2))"
  by (subst bit_length.simps) simp

lemma bit_length_less: "n < 2 ^ bit_length n"
proof (induction n rule: bit_length.induct)
  case (1 n)
  show ?case
  proof (cases "n = 0")
    case True
    then show ?thesis by simp
  next
    case False
    then have "n div 2 < 2 ^ bit_length (n div 2)" using 1 by simp
    then have "n < 2 * 2 ^ bit_length (n div 2)" by linarith
    then show ?thesis using False by (simp add: bit_length_pos)
  qed
qed

lemma bit_length_ge: "0 < n \<Longrightarrow> 2 ^ (bit_length n - 1) \<le> n"
proof (induction n rule: bit_length.induct)
  case (1 n)
  show ?case
  proof (cases "n div 2 = 0")
    case True
    then show ?thesis using 1(2) by (simp add: bit_length_pos)
  next
    case False
    then have ih: "2 ^ (bit_length (n div 2) - 1) \<le> n div 2" using 1 by simp
    have "bit_length (n div 2) = Suc (bit_length (n div 2) - 1)"
      using False by (simp add: bit_length_pos)
    then have "2 ^ bit_length (n div 2) = 2 * (2::nat) ^ (bit_length (n div 2) - 1)"
      by (metis power_Suc)
    then have "(2::nat) ^ bit_length (n div 2) \<le> n" using ih by linarith
    then show ?thesis using 1(2) by (simp add: bit_length_pos)
  qed
qed

lemma bit_length_le: 
  assumes "n < 2 ^ b" 
  shows "bit_length n \<le> b"
proof (cases "n = 0")
  case True
  then show ?thesis by simp
next
  case False
  then have "0 < n" by simp
  from le_less_trans [OF bit_length_ge [OF this] assms] have "bit_length n - 1 < b" by simp
  then show ?thesis by simp
qed

lemma bit_length_double: "0 < n \<Longrightarrow> bit_length (2 * n) = Suc (bit_length n)"
  by (simp add: bit_length_pos)

lemma bit_length_mult_power: "0 < n \<Longrightarrow> bit_length (n * 2 ^ t) = bit_length n + t"
proof (induction t)
  case 0
  then show ?case by simp
next
  case (Suc t)
  have "bit_length (n * 2 ^ Suc t) = bit_length (2 * (n * 2 ^ t))" by (simp add: mult.commute mult.left_commute)
  also have "\<dots> = Suc (bit_length (n * 2 ^ t))" using Suc.prems by (intro bit_length_double) simp
  finally show ?case using Suc by simp
qed

lemma round_half_even_exact: "2 ^ s dvd n \<Longrightarrow> round_half_even s n = n"
  by (simp add: round_half_even_def Let_def)

lemma round_half_even_upper: "2 * round_half_even s n \<le> 2 * n + 2 ^ s"
proof -
  define q where "q = n div 2 ^ s"
  define r where "r = n mod 2 ^ s"
  have n: "n = q * 2 ^ s + r" unfolding q_def r_def by (rule div_mult_mod_eq [symmetric])
  show ?thesis
    unfolding round_half_even_def Let_def q_def [symmetric] r_def [symmetric]
    by (auto simp: n algebra_simps)
qed

lemma round_half_even_mono: 
  assumes "m * 2 ^ s \<le> n" 
  shows "m * 2 ^ s \<le> round_half_even s n"
proof -
  have "m \<le> n div 2 ^ s" using assms by (simp add: less_eq_div_iff_mult_less_eq)
  then have "m * 2 ^ s \<le> (n div 2 ^ s) * 2 ^ s" by simp
  also have "\<dots> \<le> round_half_even s n" by (simp add: round_half_even_def Let_def)
  finally show ?thesis .
qed

lemma round53_exact:
  assumes "m < 2 ^ 53"
  shows "round53 (m * 2 ^ t) = m * 2 ^ t"
proof (cases "m = 0")
  case True
  then show ?thesis by (simp add: round53_def round_half_even_def)
next
  case False
  have "bit_length m \<le> 53" using assms by (rule bit_length_le)
  then have "bit_length (m * 2 ^ t) - 53 \<le> t" using False by (simp add: bit_length_mult_power)
  then have "(2::nat) ^ (bit_length (m * 2 ^ t) - 53) dvd 2 ^ t" by (simp add: le_imp_power_dvd)
  then have "2 ^ (bit_length (m * 2 ^ t) - 53) dvd m * 2 ^ t" by (rule dvd_mult)
  then show ?thesis unfolding round53_def by (rule round_half_even_exact)
qed

lemma round_half_even_dvd: "2 ^ s dvd round_half_even s n"
  by (simp add: round_half_even_def Let_def)

lemma fixed_point_gap:
  assumes fp: "round_half_even (bit_length k - p) k = k" and k: "k < 2 ^ e" and p: "1 \<le> p" "p \<le> e"
  shows "k + 2 ^ (e - p) \<le> 2 ^ e"
proof (cases "k < 2 ^ (e - 1)")
  case True
  have "(2::nat) ^ (e - p) \<le> 2 ^ (e - 1)" using p by (intro power_increasing) auto
  moreover have "(2::nat) ^ e = 2 * 2 ^ (e - 1)" using p by (cases e) auto
  ultimately show ?thesis using True by linarith
next
  case False
  then have "(2::nat) ^ (e - 1) < 2 ^ bit_length k"
    using bit_length_less [of k] by linarith
  then have "e - 1 < bit_length k" by simp
  moreover have "bit_length k \<le> e" using k by (rule bit_length_le)
  ultimately have "bit_length k = e" by linarith
  then have "2 ^ (e - p) dvd k" using round_half_even_dvd [of "bit_length k - p" k] fp by simp
  then obtain c where c: "k = 2 ^ (e - p) * c" by (rule dvdE)
  have E: "(2::nat) ^ e = 2 ^ (e - p) * 2 ^ p" using p by (simp add: power_add [symmetric])
  have "c < 2 ^ p" using k unfolding c E by simp
  then have "c + 1 \<le> 2 ^ p" by simp
  then have "2 ^ (e - p) * (c + 1) \<le> 2 ^ (e - p) * (2::nat) ^ p" by (rule mult_le_mono2)
  then show ?thesis unfolding c E by (simp add: algebra_simps)
qed

lemma rounded_product:
  assumes gap: "k + 2 ^ (e - p) \<le> 2 ^ e" and n: "0 < n" "n \<le> 2 ^ p" and p: "1 \<le> p" "p \<le> e"
  defines "r \<equiv> round_half_even (bit_length (k * n) - p) (k * n)"
  shows "r < n * 2 ^ e"
    and "(r div 2 ^ e) * 2 ^ e \<le> k * n + n * 2 ^ (e - p)"
    and "k * n < (r div 2 ^ e + 1) * 2 ^ e"
proof -
  define N where "N = k * n"
  define s where "s = bit_length N - p"
  define A where "A = (2::nat) ^ (e - p)"
  define P where "P = (2::nat) ^ p"
  define E where "E = (2::nat) ^ e"
  define S where "S = (2::nat) ^ s"
  have r: "r = round_half_even s N" by (simp add: r_def s_def N_def)
  have EPA: "E = A * P" using p by (simp add: E_def A_def P_def power_add [symmetric])
  have pos: "0 < A" "0 < P" "0 < E" "0 < S" by (simp_all add: A_def P_def E_def S_def)
  have "(k + A) * n \<le> E * n" using gap unfolding A_def E_def by (rule mult_le_mono1)
  then have NA: "N + n * A \<le> n * E" by (simp add: N_def algebra_simps)
  have "0 < n * A" using n pos by simp
  then have NE: "N < n * E" using NA by linarith
  have SP: "S < 2 * n * A"
  proof (cases "s = 0")
    case True
    have "1 < 2 * (n * A)" using \<open>0 < n * A\<close> by linarith
    then show ?thesis using True by (simp add: S_def)
  next
    case False
    then have "0 < N" by (cases "N = 0") (simp_all add: s_def)
    then have "2 ^ (bit_length N - 1) \<le> N" by (rule bit_length_ge)
    moreover have "bit_length N - 1 + 1 = s + p" using False by (simp add: s_def)
    then have "(2::nat) ^ (s + p) = 2 * 2 ^ (bit_length N - 1)" by (metis power_add power_one_right mult.commute)
    ultimately have "S * P \<le> 2 * N" by (simp add: S_def P_def power_add)
    also have "\<dots> < 2 * n * A * P" using NE by (simp add: EPA algebra_simps)
    finally show ?thesis using pos by simp
  qed
  have up: "2 * r \<le> 2 * N + S" unfolding r S_def by (rule round_half_even_upper)
  show 1: "r < n * 2 ^ e" using up SP NA unfolding E_def [symmetric] by linarith
  have "N < 2 ^ (p + e)"
  proof -
    have "n * E \<le> P * E" using n(2) unfolding P_def by (rule mult_le_mono1)
    then have "N < P * E" using NE by linarith
    then show ?thesis by (simp add: P_def E_def power_add)
  qed
  then have "bit_length N \<le> p + e" by (rule bit_length_le)
  then have se: "s \<le> e" by (simp add: s_def)
  define j where "j = r div E"
  have jr: "j * E \<le> r" "r < (j + 1) * E"
    using dividend_less_div_times [OF pos(3), of r] by (simp_all add: j_def)
  have "2 * (j * E) \<le> 2 * N + S" using jr(1) up by linarith
  then have "j * E \<le> N + n * A" using SP by linarith
  then show "(r div 2 ^ e) * 2 ^ e \<le> k * n + n * 2 ^ (e - p)"
    by (simp add: j_def E_def N_def A_def)
  have "N < (j + 1) * E"
  proof (rule ccontr)
    assume "\<not> N < (j + 1) * E"
    then have le: "(j + 1) * E \<le> N" by simp
    have "E = 2 ^ (e - s) * 2 ^ s" using se by (simp add: E_def power_add [symmetric])
    then have "((j + 1) * 2 ^ (e - s)) * 2 ^ s \<le> N" using le by (simp add: algebra_simps)
    then have "((j + 1) * 2 ^ (e - s)) * 2 ^ s \<le> r" unfolding r by (rule round_half_even_mono)
    then have "(j + 1) * E \<le> r" using \<open>E = 2 ^ (e - s) * 2 ^ s\<close> by (simp add: algebra_simps)
    then show False using jr(2) by simp
  qed
  then show "k * n < (r div 2 ^ e + 1) * 2 ^ e" by (simp add: j_def E_def N_def)
qed

text \<open>
  The index that line 55 computes from a double in \<open>[0, 1)\<close> is below \<open>n\<close>, and it is
  \<open>j\<close> for the random numbers of the interval from \<open>j / n\<close> to \<open>(j + 1) / n\<close>, which has
  the same length for every \<open>j\<close>, and for no other, except that the rounding of the
  product moves the lower end by at most \<open>2 ^ -53\<close>.
\<close>

lemma double_units_less:
  assumes "is_double x" "x < 1"
  shows "double_units x < 2 ^ 1074"
proof -
  have "real (double_units x) = x * 2 ^ 1074" using assms(1) by (simp only: is_double_def)
  also have "\<dots> < 1 * 2 ^ 1074" using assms(2) by (intro mult_strict_right_mono) simp_all
  finally have "real (double_units x) < real (2 ^ 1074)" by simp
  then show ?thesis by (simp only: of_nat_less_iff)
qed

lemma double_below_one:
  assumes "is_double x" "x < 1"
  shows "double_units x + 2 ^ (1074 - 53) \<le> 2 ^ 1074"
proof -
  have "round_half_even (bit_length (double_units x) - 53) (double_units x) = double_units x"
    using assms(1) by (simp only: is_double_def round53_def)
  then show ?thesis
    using double_units_less [OF assms] by (rule fixed_point_gap) simp_all
qed

lemma floor_times_less:
  assumes "is_double x" "x < 1" "0 < n" "n \<le> 2 ^ 53"
  shows "floor_times x n < n"
proof -
  have "round_half_even (bit_length (double_units x * n) - 53) (double_units x * n) < n * 2 ^ 1074"
    using double_below_one [OF assms(1,2)] assms(3,4) by (rule rounded_product(1)) simp_all
  then show ?thesis
    unfolding floor_times_def round53_def by (simp only: less_mult_imp_div_less)
qed

lemma floor_times_interval:
  assumes "is_double x" "x < 1" "0 < n" "n \<le> 2 ^ 53"
  shows "real (floor_times x n) / real n - 1 / 2 ^ 53 \<le> x"
    and "x < (real (floor_times x n) + 1) / real n"
proof -
  define j where "j = floor_times x n"
  define k where "k = double_units x"
  define u where "u = (2::real) ^ 1074"
  define a where "a = (2::real) ^ (1074 - 53)"
  define p where "p = (2::real) ^ 53"
  have pos: "0 < u" "0 < a" "0 < p" by (simp_all add: u_def a_def p_def)
  have u: "u = a * p" unfolding u_def a_def p_def by (simp only: power_add [symmetric]) simp
  have kx: "real k = x * u" using assms(1) by (simp only: is_double_def k_def u_def)
  have lo: "j * 2 ^ 1074 \<le> k * n + n * 2 ^ (1074 - 53)"
    unfolding j_def floor_times_def round53_def k_def
    using double_below_one [OF assms(1,2)] assms(3,4) by (rule rounded_product(2)) simp_all
  have hi: "k * n < (j + 1) * 2 ^ 1074"
    unfolding j_def floor_times_def round53_def k_def
    using double_below_one [OF assms(1,2)] assms(3,4) by (rule rounded_product(3)) simp_all
  have n: "0 < real n" using assms(3) by simp
  have "real (j * 2 ^ 1074) \<le> real (k * n + n * 2 ^ (1074 - 53))"
    using lo by (simp only: of_nat_le_iff)
  then have "real j * u \<le> real k * real n + real n * a"
    by (simp only: of_nat_mult of_nat_add of_nat_power of_nat_numeral u_def a_def)
  then have "real j * (a * p) \<le> x * (a * p) * real n + real n * a" by (simp only: kx u)
  then have "(real j * p) * a \<le> (x * p * real n + real n) * a" by (simp add: algebra_simps)
  then have "real j * p \<le> x * p * real n + real n" using pos(2) by (simp only: mult_le_cancel_right_pos)
  then have "(real j - real n / p) * p \<le> (x * real n) * p" using pos(3) by (simp add: algebra_simps)
  then have "real j - real n / p \<le> x * real n" using pos(3) by (simp only: mult_le_cancel_right_pos)
  then have "(real j / real n - 1 / p) * real n \<le> x * real n" using n by (simp add: algebra_simps)
  then have "real j / real n - 1 / p \<le> x" using n by (simp only: mult_le_cancel_right_pos)
  then show "real (floor_times x n) / real n - 1 / 2 ^ 53 \<le> x" by (simp only: j_def p_def)
  have "real (k * n) < real ((j + 1) * 2 ^ 1074)" using hi by (simp only: of_nat_less_iff)
  then have "real k * real n < (real j + 1) * u"
    by (simp only: of_nat_mult of_nat_add of_nat_power of_nat_numeral of_nat_1 u_def)
  then have "(x * real n) * u < (real j + 1) * u" by (simp add: kx algebra_simps)
  then have "x * real n < real j + 1" using pos(1) by (simp only: mult_less_cancel_right_pos)
  then have "x < (real j + 1) / real n" using n by (simp add: pos_less_divide_eq)
  then show "x < (real (floor_times x n) + 1) / real n" by (simp only: j_def)
qed

text \<open>
  Examples. The rounding is seen at the double just below \<open>9 / 10\<close>: ten times this
  number is nearer to 9 than to any other double, so the index is 9, where the exact
  product has the integer part 8.
\<close>

lemma double_units_dyadic:
  assumes "t \<le> 1074"
  shows "double_units (real m / 2 ^ t) = m * 2 ^ (1074 - t)"
    and "real (double_units (real m / 2 ^ t)) = real m / 2 ^ t * 2 ^ 1074"
proof -
  have u: "(2::real) ^ 1074 = 2 ^ t * 2 ^ (1074 - t)"
    using assms by (simp only: power_add [symmetric]) simp
  have e: "real m / 2 ^ t * 2 ^ 1074 = real (m * 2 ^ (1074 - t))" unfolding u by simp
  show "double_units (real m / 2 ^ t) = m * 2 ^ (1074 - t)"
    unfolding double_units_def e by (simp only: floor_of_nat nat_int)
  then show "real (double_units (real m / 2 ^ t)) = real m / 2 ^ t * 2 ^ 1074"
    by (simp only: e)
qed

lemma is_double_dyadic:
  assumes "m < 2 ^ 53" "t \<le> 1074"
  shows "is_double (real m / 2 ^ t)"
  unfolding is_double_def
  using double_units_dyadic [OF assms(2), of m] round53_exact [OF assms(1), of "1074 - t"]
  by simp

lemma floor_times_dyadic:
  assumes "t \<le> 1074"
  shows "floor_times (real m / 2 ^ t) n = round53 (m * n * 2 ^ (1074 - t)) div 2 ^ 1074"
  unfolding floor_times_def double_units_dyadic(1) [OF assms] by (simp add: algebra_simps)

lemma is_double_half: "is_double (1 / 2)"
  using is_double_dyadic [of 1 1] by simp

lemma floor_times_half:
  assumes "n < 2 ^ 53"
  shows "floor_times (1 / 2) n = n div 2"
proof -
  have "floor_times (real 1 / 2 ^ 1) n = round53 (1 * n * 2 ^ (1074 - 1)) div 2 ^ 1074"
    by (rule floor_times_dyadic) simp
  also have "round53 (1 * n * 2 ^ (1074 - 1)) = n * 2 ^ 1073"
    using round53_exact [OF assms, of 1073] by simp
  also have "n * 2 ^ 1073 div 2 ^ 1074 = n div 2"
  proof -
    have "(2::nat) ^ 1074 = 2 * 2 ^ 1073" by (simp only: power_Suc [symmetric]) simp
    then show ?thesis by (simp only: div_mult_mult2) simp
  qed
  finally show ?thesis by simp
qed

lemma round_half_even_scale:
  "round_half_even (s + t) (n * 2 ^ t) = round_half_even s n * 2 ^ t"
proof -
  have d: "n * 2 ^ t div 2 ^ (s + t) = n div 2 ^ s" by (simp add: power_add)
  have m: "n * 2 ^ t mod 2 ^ (s + t) = n mod 2 ^ s * 2 ^ t" by (simp add: power_add)
  have c: "(2 * (n mod 2 ^ s * 2 ^ t) < 2 ^ (s + t)) = (2 * (n mod 2 ^ s) < 2 ^ s)"
    "(2 * (n mod 2 ^ s * 2 ^ t) = 2 ^ (s + t)) = (2 * (n mod 2 ^ s) = 2 ^ s)"
    by (simp_all add: power_add)
  show ?thesis
    unfolding round_half_even_def Let_def d m c by (simp add: power_add algebra_simps)
qed

lemma round53_scale:
  assumes "53 \<le> bit_length n"
  shows "round53 (n * 2 ^ t) = round53 n * 2 ^ t"
proof -
  have "0 < n" using assms by (cases "n = 0") simp_all
  then have "bit_length (n * 2 ^ t) - 53 = (bit_length n - 53) + t"
    using assms by (simp add: bit_length_mult_power)
  then show ?thesis unfolding round53_def by (simp only: round_half_even_scale)
qed

lemma bit_length_numeral:
  "bit_length (numeral k) = Suc (bit_length (numeral k div 2))"
  by (rule bit_length_pos) simp

lemma round53_tie: "round53 81064793292668920 = 81064793292668928"
proof -
  have "bit_length 81064793292668920 = 57"
    by (simp add: bit_length_numeral bit_length_pos)
  then show ?thesis by (simp add: round53_def round_half_even_def Let_def)
qed

lemma floor_times_rounds_up:
  "is_double (8106479329266892 / 2 ^ 53)"
  "floor_times (8106479329266892 / 2 ^ 53) 10 = 9"
  "nat \<lfloor>(8106479329266892 / 2 ^ 53 :: real) * 10\<rfloor> = 8"
proof -
  show "is_double (8106479329266892 / 2 ^ 53)"
    using is_double_dyadic [of 8106479329266892 53] by simp
  have b: "53 \<le> bit_length 81064793292668920"
    by (simp add: bit_length_numeral bit_length_pos)
  have "floor_times (real 8106479329266892 / 2 ^ 53) 10 =
      round53 (8106479329266892 * 10 * 2 ^ (1074 - 53)) div 2 ^ 1074"
    by (rule floor_times_dyadic) simp
  also have "(8106479329266892::nat) * 10 = 81064793292668920" by simp
  also have "round53 (81064793292668920 * 2 ^ (1074 - 53)) = 81064793292668928 * 2 ^ (1074 - 53)"
    by (simp only: round53_scale [OF b] round53_tie)
  also have "(81064793292668928::nat) = 9 * 2 ^ 53" by simp
  also have "(9 * 2 ^ 53 * 2 ^ (1074 - 53) :: nat) = 9 * 2 ^ 1074"
    by (simp only: mult.assoc power_add [symmetric]) simp
  finally show "floor_times (8106479329266892 / 2 ^ 53) 10 = 9" by simp
  show "nat \<lfloor>(8106479329266892 / 2 ^ 53 :: real) * 10\<rfloor> = 8" by simp
qed

text \<open>Every index from 0 to \<open>i\<close> is the index of some random number.\<close>

lemma floor_times_onto:
  assumes "j \<le> i" "i < 1024"
  shows "\<exists>x. is_double x \<and> x < 1 \<and> floor_times x (i + 1) = j"
proof -
  define m where "m = (j * 1024 + i) div (i + 1)"
  have lo: "j * 1024 \<le> m * (i + 1)"
  proof -
    have "j * 1024 + i < (m + 1) * (i + 1)"
      unfolding m_def using dividend_less_div_times [of "i + 1" "j * 1024 + i"] by simp
    then show ?thesis by simp
  qed
  have "m * (i + 1) \<le> j * 1024 + i" unfolding m_def by (rule div_times_less_eq_dividend)
  then have hi: "m * (i + 1) < (j + 1) * 1024" using assms(2) by simp
  have "(j + 1) * 1024 \<le> (i + 1) * 1024" using assms(1) by simp
  then have mi: "m * (i + 1) < 1024 * (i + 1)" using hi by simp
  then have m: "m < 1024" by (simp only: mult_less_cancel2)
  have small: "m * (i + 1) < 2 ^ 53"
  proof -
    have "1024 * (i + 1) \<le> 1024 * 1024" using assms(2) by simp
    then have "m * (i + 1) < 1024 * 1024" using mi by linarith
    then show ?thesis by simp
  qed
  let ?x = "real m / 2 ^ 10"
  have d: "is_double ?x" using m by (intro is_double_dyadic) simp_all
  have x1: "?x < 1" using m by simp
  have "floor_times ?x (i + 1) = round53 (m * (i + 1) * 2 ^ (1074 - 10)) div 2 ^ 1074"
    by (rule floor_times_dyadic) simp
  also have "round53 (m * (i + 1) * 2 ^ (1074 - 10)) = m * (i + 1) * 2 ^ (1074 - 10)"
    using small by (rule round53_exact)
  also have "m * (i + 1) * 2 ^ (1074 - 10) div 2 ^ 1074 = m * (i + 1) div 2 ^ 10"
  proof -
    have "(2::nat) ^ 1074 = 2 ^ 10 * 2 ^ (1074 - 10)" by (simp only: power_add [symmetric]) simp
    then show ?thesis by (simp only: div_mult_mult2) simp
  qed
  also have "\<dots> = j"
  proof -
    have "j * 2 ^ 10 \<le> m * (i + 1)" "m * (i + 1) < (j + 1) * 2 ^ 10" using lo hi by simp_all
    then show ?thesis by (simp add: div_nat_eqI)
  qed
  finally show ?thesis using d x1 by blast
qed

subsection \<open>The shuffle\<close>

lemma length_swap [simp]: "length (swap_at i j xs) = length xs"
  by (simp add: swap_at_def)

lemma mset_swap_list: "i < length xs \<Longrightarrow> j < length xs \<Longrightarrow> mset (swap_at i j xs) = mset xs"
  by (simp add: swap_at_def mset_swap)

lemma length_fisher_yates [simp]: "length (fisher_yates pick i xs) = length xs"
  by (induction i arbitrary: xs) simp_all

lemma mset_fisher_yates:
  assumes "\<And>m. 1 \<le> m \<Longrightarrow> m \<le> i \<Longrightarrow> pick m \<le> m" "i < length xs"
  shows "mset (fisher_yates pick i xs) = mset xs"
  using assms
proof (induction i arbitrary: xs)
  case 0
  then show ?case by simp
next
  case (Suc i)
  have "pick (Suc i) \<le> Suc i" using Suc.prems(1) [of "Suc i"] by simp
  then have "mset (swap_at (Suc i) (pick (Suc i)) xs) = mset xs"
    using Suc.prems(2) by (intro mset_swap_list) auto
  moreover have "mset (fisher_yates pick i (swap_at (Suc i) (pick (Suc i)) xs)) =
      mset (swap_at (Suc i) (pick (Suc i)) xs)"
    using Suc.prems by (intro Suc.IH) auto
  ultimately show ?case by simp
qed

lemma shuffle_loop_fisher_yates:
  assumes "array < length h"
  shows "shuffle_loop rnd k h array i =
    (h[array := fisher_yates (\<lambda>m. floor_times (rnd (k + i - m)) (m + 1)) i (h ! array)], k + i)"
  using assms
proof (induction i arbitrary: k h)
  case 0
  then show ?case by simp
next
  case (Suc i)
  let ?j = "floor_times (rnd k) (Suc i + 1)"
  let ?h' = "h[array := swap_at (Suc i) ?j (h ! array)]"
  have "shuffle_loop rnd k h array (Suc i) = shuffle_loop rnd (Suc k) ?h' array i"
    by (simp add: Let_def swap_at_def)
  also have "\<dots> = (?h'[array := fisher_yates (\<lambda>m. floor_times (rnd (Suc k + i - m)) (m + 1)) i
      (?h' ! array)], Suc k + i)"
    using Suc.prems by (intro Suc.IH) simp
  finally show ?case using Suc.prems by simp
qed

lemma concat_rows:
  assumes "length xs = 16"
  shows "concat (map (\<lambda>i. array_slice xs (i * 4) ((i + 1) * 4)) [0..<4]) = xs"
proof -
  have u: "[0..<4] = [0, 1, 2, Suc 2]" by (simp add: upt_rec)
  have "take 4 xs @ take 4 (drop 4 xs) @ take 4 (drop 8 xs) @ take 4 (drop 12 xs) =
      take 4 xs @ take 4 (drop 4 xs) @ take 4 (drop 8 xs) @ drop 12 xs"
    using assms by simp
  also have "\<dots> = take 4 xs @ take 4 (drop 4 xs) @ drop 8 xs"
    using append_take_drop_id [of 4 "drop 8 xs"] by simp
  also have "\<dots> = take 4 xs @ drop 4 xs"
    using append_take_drop_id [of 4 "drop 4 xs"] by simp
  also have "\<dots> = xs" by simp
  finally show ?thesis by (simp add: u array_slice_def)
qed

lemma rows_shape:
  assumes "length xs = 16"
  shows "length (map (\<lambda>i. array_slice xs (i * 4) ((i + 1) * 4)) [0..<4]) = 4"
    and "\<forall>row \<in> set (map (\<lambda>i. array_slice xs (i * 4) ((i + 1) * 4)) [0..<4]). length row = 4"
  using assms by (auto simp: array_slice_def)

lemma rows_nth:
  assumes "length xs = 16" "r < 4" "c < 4"
  shows "map (\<lambda>i. array_slice xs (i * 4) ((i + 1) * 4)) [0..<4] ! r ! c = xs ! (r * 4 + c)"
  using assms by (simp add: array_slice_def)

lemma createBoard_eq:
  assumes "symbols < length h"
  shows "createBoard rnd k h =
    (let n = length (h ! symbols) - 1;
         ys = fisher_yates (\<lambda>m. floor_times (rnd (k + n - m)) (m + 1)) n (h ! symbols)
     in (map (\<lambda>i. array_slice ys (i * 4) ((i + 1) * 4)) [0..<4], h @ [ys], k + n))"
proof -
  have a: "length h < length (h @ [h ! symbols])" by simp
  show ?thesis
    using assms
    by (simp add: createBoard_def spread_copy_def shuffle_def shuffle_loop_fisher_yates [OF a]
        Let_def nth_append)
qed

lemma symbols_init_length: "length symbols_init = 16"
  by (simp add: symbols_init_def)

lemma symbols_init_counts: "\<forall>s \<in> set symbols_init. count_list symbols_init s = 2"
  by (simp add: symbols_init_def js_def)

lemma symbols_init_card: "card (set symbols_init) = 8"
  by (simp add: symbols_init_def js_def)

text \<open>
  Claim C3. With every random number a double in \<open>[0, 1)\<close>, the board that
  \<open>createBoard\<close> returns has four rows of four cells, laid out row-major from the
  shuffled array. The shuffled array is the permutation of the 16 symbols that the
  specification's shuffle computes (for \<open>i\<close> from 15 down to 1, swap with the index
  chosen for \<open>i\<close>) when the index chosen for \<open>i\<close> is the one of line 55, computed in
  doubles. This index is in \<open>[0, i]\<close>, and the choice is uniform in this sense: the
  index is \<open>j\<close> for the random numbers from \<open>j / (i + 1)\<close> to \<open>(j + 1) / (i + 1)\<close>, an
  interval of the same length \<open>1 / (i + 1)\<close> for each \<open>j\<close>, up to \<open>2 ^ -53\<close> at its
  lower end, which is the rounding of the product; and every \<open>j\<close> in \<open>[0, i]\<close> is the
  index of some random number. (How the random numbers are distributed is a property
  of \<^verbatim>\<open>Math.random\<close>, not of this code.) So the board holds the same symbols as
  \<^verbatim>\<open>symbols\<close>, each of the 8 values exactly twice.
\<close>

theorem createBoard_shuffled_pairs:
  assumes "\<forall>n. is_double (rnd n) \<and> rnd n < 1"
    and "symbols < length h" and "h ! symbols = symbols_init"
  shows "case createBoard rnd k h of (rows, h', k') \<Rightarrow>
     length rows = 4 \<and> (\<forall>row \<in> set rows. length row = 4) \<and>
     (\<forall>r < 4. \<forall>c < 4. rows ! r ! c = concat rows ! (r * 4 + c)) \<and>
     concat rows = fisher_yates (\<lambda>i. floor_times (rnd (k + 15 - i)) (i + 1)) 15 symbols_init \<and>
     (\<forall>i \<le> 15. floor_times (rnd (k + 15 - i)) (i + 1) \<le> i \<and>
        real (floor_times (rnd (k + 15 - i)) (i + 1)) / real (i + 1) - 1 / 2 ^ 53
          \<le> rnd (k + 15 - i) \<and>
        rnd (k + 15 - i) < (real (floor_times (rnd (k + 15 - i)) (i + 1)) + 1) / real (i + 1)) \<and>
     (\<forall>i \<le> 15. \<forall>j \<le> i. \<exists>x. is_double x \<and> x < 1 \<and> floor_times x (i + 1) = j) \<and>
     mset (concat rows) = mset symbols_init \<and>
     (\<forall>s \<in> set symbols_init. count_list (concat rows) s = 2) \<and>
     set (concat rows) = set symbols_init \<and> card (set (concat rows)) = 8"
proof -
  let ?pick = "\<lambda>i. floor_times (rnd (k + 15 - i)) (i + 1)"
  let ?ys = "fisher_yates ?pick 15 symbols_init"
  let ?board = "map (\<lambda>i. array_slice ?ys (i * 4) ((i + 1) * 4)) [0..<4]"
  have cb: "createBoard rnd k h = (?board, h @ [?ys], k + 15)"
    using createBoard_eq [OF assms(2), of rnd k] by (simp add: assms(3) symbols_init_length Let_def)
  have len: "length ?ys = 16" by (simp add: symbols_init_length)
  have d: "is_double (rnd n)" "rnd n < 1" for n using assms(1) by simp_all
  have small: "i + 1 \<le> 2 ^ 53" if "i \<le> 15" for i :: nat using that by simp
  have pick: "?pick i \<le> i" if "i \<le> 15" for i
    using floor_times_less [OF d, of "i + 1" "k + 15 - i"] small [OF that] by simp
  have unif: "real (?pick i) / real (i + 1) - 1 / 2 ^ 53 \<le> rnd (k + 15 - i) \<and>
      rnd (k + 15 - i) < (real (?pick i) + 1) / real (i + 1)" if "i \<le> 15" for i
    using floor_times_interval [OF d, of "i + 1" "k + 15 - i"] small [OF that] by simp
  have c: "concat ?board = ?ys" by (rule concat_rows [OF len])
  have m: "mset ?ys = mset symbols_init"
    using pick by (intro mset_fisher_yates) (simp_all add: symbols_init_length)
  have cnt: "count_list ?ys s = count_list symbols_init s" for s
    using m by (metis count_mset)
  have st: "set ?ys = set symbols_init" using m by (rule mset_eq_setD)
  have nth: "\<forall>r < 4. \<forall>c < 4. ?board ! r ! c = ?ys ! (r * 4 + c)"
    using rows_nth [OF len] by blast
  have idx: "\<forall>i \<le> 15. ?pick i \<le> i \<and>
      real (?pick i) / real (i + 1) - 1 / 2 ^ 53 \<le> rnd (k + 15 - i) \<and>
      rnd (k + 15 - i) < (real (?pick i) + 1) / real (i + 1)"
    using pick unif by blast
  have onto: "\<forall>i \<le> 15. \<forall>j \<le> i. \<exists>x. is_double x \<and> x < 1 \<and> floor_times x (i + 1) = j"
    using floor_times_onto by simp
  show ?thesis
    unfolding cb prod.case c
    using rows_shape [OF len] idx onto m cnt st nth symbols_init_counts symbols_init_card
    by (simp only: simp_thms)
qed

text \<open>
  Claim C9. \<open>createBoard\<close> leaves the module's array \<^verbatim>\<open>symbols\<close> as it was: it
  allocates one new array, shuffles that one, and changes no array that existed
  before. So after any number of boards the array still holds what it held.
\<close>

theorem createBoard_keeps_symbols:
  assumes "symbols < length h"
  shows "(case createBoard rnd k h of (rows, h', k') \<Rightarrow>
           h' ! symbols = h ! symbols \<and> length h' = Suc (length h) \<and>
           (\<forall>a < length h. h' ! a = h ! a)) \<and>
         fst (create_boards rnd k h n) ! symbols = h ! symbols"
proof -
  have one: "case createBoard rnd k h of (rows, h', k') \<Rightarrow>
           h' ! symbols = h ! symbols \<and> length h' = Suc (length h) \<and>
           (\<forall>a < length h. h' ! a = h ! a)" if "symbols < length h" for k h
    using that by (simp add: createBoard_eq Let_def nth_append)
  have many: "fst (create_boards rnd k h n) ! symbols = h ! symbols" if "symbols < length h" for k h
    using that
  proof (induction n arbitrary: k h)
    case 0
    then show ?case by simp
  next
    case (Suc n)
    obtain rows h' k' where cb: "createBoard rnd k h = (rows, h', k')"
      by (cases "createBoard rnd k h") auto
    have h': "h' ! symbols = h ! symbols" "symbols < length h'"
      using one [OF Suc.prems, of k] Suc.prems by (simp_all add: cb)
    show ?case using Suc.IH [OF h'(2), of k'] h'(1) by (simp add: cb)
  qed
  show ?thesis using one [OF assms] many [OF assms] by simp
qed

lemma list_update_Cons_numeral:
  "(x # xs)[numeral v := y] = x # xs[numeral v - 1 := y]"
  by (simp add: numeral_eq_Suc)

lemma fisher_yates_numeral:
  "fisher_yates pick (numeral v) xs =
     fisher_yates pick (numeral v - 1) (swap_at (numeral v) (pick (numeral v)) xs)"
  by (simp add: numeral_eq_Suc)

lemma fisher_yates_one:
  "fisher_yates pick 1 xs = swap_at 1 (pick 1) xs"
  by (simp add: numeral_eq_Suc)

lemma example_shuffle:
  "fisher_yates (\<lambda>i. floor_times (1 / 2) (i + 1)) 15 symbols_init =
     map js [''A'', ''E'', ''A'', ''G'', ''B'', ''F'', ''B'', ''H'',
             ''C'', ''F'', ''C'', ''G'', ''D'', ''H'', ''D'', ''E'']"
  by (simp add: fisher_yates_numeral fisher_yates_one swap_at_def symbols_init_def
      list_update_Cons_numeral floor_times_half)

lemma createBoard_symbols:
  assumes "symbols < length h" and "h ! symbols = symbols_init"
  shows "createBoard rnd k h =
    (map (\<lambda>i. array_slice
              (fisher_yates (\<lambda>i. floor_times (rnd (k + 15 - i)) (i + 1)) 15 symbols_init)
              (i * 4) ((i + 1) * 4)) [0..<4],
     h @ [fisher_yates (\<lambda>i. floor_times (rnd (k + 15 - i)) (i + 1)) 15 symbols_init],
     k + 15)"
  using createBoard_eq [OF assms(1), of rnd k] by (simp add: assms(2) symbols_init_length Let_def)

lemma initial_heap_symbols:
  "symbols < length initial_heap" "initial_heap ! symbols = symbols_init"
  by (simp_all add: symbols_def initial_heap_def)

lemma upt_0_4: "[0..<4] = [0, 1, 2, 3]"
  by (simp add: upt_rec)

lemma example_createBoard:
  "createBoard (\<lambda>n. 1 / 2) 0 initial_heap =
     ([map js [''A'', ''E'', ''A'', ''G''], map js [''B'', ''F'', ''B'', ''H''],
       map js [''C'', ''F'', ''C'', ''G''], map js [''D'', ''H'', ''D'', ''E'']],
      [symbols_init,
       map js [''A'', ''E'', ''A'', ''G'', ''B'', ''F'', ''B'', ''H'',
               ''C'', ''F'', ''C'', ''G'', ''D'', ''H'', ''D'', ''E'']],
      15)"
  unfolding createBoard_symbols [OF initial_heap_symbols] example_shuffle upt_0_4
  by (simp add: array_slice_def initial_heap_def)

theorem createBoard_shuffled_pairs_witness:
  "(\<forall>n::nat. is_double (1 / 2) \<and> (1 / 2 :: real) < 1) \<and>
   symbols < length initial_heap \<and> initial_heap ! symbols = symbols_init \<and>
   fst (createBoard (\<lambda>n. 1 / 2) 0 initial_heap) =
     [map js [''A'', ''E'', ''A'', ''G''], map js [''B'', ''F'', ''B'', ''H''],
      map js [''C'', ''F'', ''C'', ''G''], map js [''D'', ''H'', ''D'', ''E'']] \<and>
   mset (concat (fst (createBoard (\<lambda>n. 1 / 2) 0 initial_heap))) = mset symbols_init \<and>
   card (set (concat (fst (createBoard (\<lambda>n. 1 / 2) 0 initial_heap)))) = 8"
proof -
  have r: "\<forall>n::nat. is_double (1 / 2) \<and> (1 / 2 :: real) < 1" using is_double_half by simp
  have t: "mset (concat (fst (createBoard (\<lambda>n. 1 / 2) 0 initial_heap))) = mset symbols_init \<and>
      card (set (concat (fst (createBoard (\<lambda>n. 1 / 2) 0 initial_heap)))) = 8"
    using createBoard_shuffled_pairs [of "\<lambda>n. 1 / 2" initial_heap 0, OF r initial_heap_symbols]
    unfolding case_prod_beta by (elim conjE) (intro conjI; assumption)
  have e: "fst (createBoard (\<lambda>n. 1 / 2) 0 initial_heap) =
     [map js [''A'', ''E'', ''A'', ''G''], map js [''B'', ''F'', ''B'', ''H''],
      map js [''C'', ''F'', ''C'', ''G''], map js [''D'', ''H'', ''D'', ''E'']]"
    unfolding example_createBoard by simp
  show ?thesis using r initial_heap_symbols t e by simp
qed

theorem createBoard_keeps_symbols_witness:
  "symbols < length initial_heap \<and>
   fst (snd (createBoard (\<lambda>n. 1 / 2) 0 initial_heap)) ! symbols = symbols_init \<and>
   fst (create_boards (\<lambda>n. 1 / 2) 0 initial_heap 3) ! symbols = symbols_init"
  using createBoard_keeps_symbols [OF initial_heap_symbols(1), of "\<lambda>n. 1 / 2" 0 3]
    initial_heap_symbols
  unfolding case_prod_beta by simp

text \<open>Shuffling the module's array itself, without the copy, would change it.\<close>

lemma shuffle_in_place_changes:
  "fst (shuffle (\<lambda>n. 1 / 2) 0 initial_heap symbols) ! symbols \<noteq> symbols_init"
proof -
  have "fst (shuffle (\<lambda>n. 1 / 2) 0 initial_heap symbols) ! symbols =
      fisher_yates (\<lambda>i. floor_times (1 / 2) (i + 1)) 15 symbols_init"
    unfolding shuffle_def shuffle_loop_fisher_yates [OF initial_heap_symbols(1)]
    using initial_heap_symbols by (simp add: symbols_init_length)
  then show ?thesis unfolding example_shuffle by (simp add: symbols_init_def js_def)
qed

section \<open>JSON strings\<close>

text \<open>
  Scanning what \<open>QuoteJSONString\<close> wrote gives the string back, whatever follows the
  closing quote.
\<close>

lemma unat_hex_digit: "n < 16 \<Longrightarrow> unat (hex_digit n) = (if n < 10 then 48 + n else 87 + n)"
  by (simp add: hex_digit_def unat_word_ariths unat_of_nat)

lemma digit_of_hex_digit: "n < 16 \<Longrightarrow> digit_of 16 (hex_digit n) = Some n"
  by (simp add: digit_of_def word_le_nat_alt unat_hex_digit Let_def)

lemma hex_parts:
  "((n div 4096 * 16 + n div 256 mod 16) * 16 + n div 16 mod 16) * 16 + n mod 16 = (n::nat)"
proof -
  have a: "n div 256 = n div 16 div 16" "n div 4096 = n div 256 div 16"
    by (simp_all add: div_mult2_eq)
  have "n div 4096 * 16 + n div 256 mod 16 = n div 256"
    unfolding a(2) by (rule div_mult_mod_eq)
  moreover have "n div 256 * 16 + n div 16 mod 16 = n div 16"
    unfolding a(1) by (rule div_mult_mod_eq)
  moreover have "n div 16 * 16 + n mod 16 = n" by (rule div_mult_mod_eq)
  ultimately show ?thesis by simp
qed

lemma scan_unicode_escape:
  "scan_string Plain acc (unicode_escape c @ rest) = scan_string Plain (c # acc) rest"
proof -
  have "unat c < 2 ^ LENGTH(16)" by (rule unsigned_less)
  then have d: "unat c div 4096 < 16" by simp
  have e: "scan_string (Hex 0 0) acc (hex_digit a # hex_digit b # hex_digit x # hex_digit y # rest) =
      scan_string Plain (of_nat (((a * 16 + b) * 16 + x) * 16 + y) # acc) rest"
    if "a < 16" "b < 16" "x < 16" "y < 16" for a b x y
    using that by (simp add: digit_of_hex_digit)
  have "scan_string Plain acc (unicode_escape c @ rest) =
      scan_string Plain (of_nat (((unat c div 4096 * 16 + unat c div 256 mod 16) * 16
        + unat c div 16 mod 16) * 16 + unat c mod 16) # acc) rest"
    unfolding unicode_escape_def using e [OF d, of "unat c div 256 mod 16" "unat c div 16 mod 16" "unat c mod 16"]
    by simp
  then show ?thesis by (simp only: hex_parts) simp
qed

lemma scan_quote_char:
  "scan_string Plain acc (quote_char c @ rest) = scan_string Plain (c # acc) rest"
proof -
  consider "c = 0x08" | "c = 0x09" | "c = 0x0A" | "c = 0x0C" | "c = 0x0D" | "c = 0x22" | "c = 0x5C"
    | "c \<noteq> 0x08" "c \<noteq> 0x09" "c \<noteq> 0x0A" "c \<noteq> 0x0C" "c \<noteq> 0x0D" "c \<noteq> 0x22" "c \<noteq> 0x5C"
    by blast
  then show ?thesis
  proof cases
    case 8
    then show ?thesis
      by (cases "c < 0x20") (simp_all add: quote_char_def scan_unicode_escape)
  qed (simp_all add: quote_char_def unescape_def)
qed

lemma surrogate_plain:
  assumes "is_high_surrogate c \<or> is_low_surrogate c"
  shows "c \<noteq> 0x22" "c \<noteq> 0x5C" "\<not> c < 0x20"
  using assms by (auto simp: is_high_surrogate_def is_low_surrogate_def word_le_nat_alt word_less_nat_alt)

lemma scan_quote_body:
  "scan_string Plain acc (quote_body s @ 0x22 # rest) = Some (rev acc @ s, rest)"
proof (induction s arbitrary: acc rule: quote_body.induct)
  case 1
  then show ?case by simp
next
  case (2 c)
  have "scan_string Plain acc (quote_body [c] @ 0x22 # rest) = scan_string Plain (c # acc) (0x22 # rest)"
    by (simp add: scan_unicode_escape scan_quote_char del: scan_string.simps)
  then show ?case by simp
next
  case (3 c d cs)
  show ?case
  proof (cases "is_high_surrogate c \<and> is_low_surrogate d")
    case True
    then have "scan_string Plain acc (c # d # quote_body cs @ 0x22 # rest) =
        scan_string Plain (d # c # acc) (quote_body cs @ 0x22 # rest)"
      using surrogate_plain [of c] surrogate_plain [of d] by simp
    then show ?thesis using True 3(1) by simp
  next
    case False
    from False have nf: "(is_high_surrogate c \<and> is_low_surrogate d) = False" by simp
    have h: "scan_string Plain acc (quote_body (c # d # cs) @ 0x22 # rest) =
        scan_string Plain (c # acc) (quote_body (d # cs) @ 0x22 # rest)"
      by (simp add: nf scan_unicode_escape scan_quote_char del: scan_string.simps)
    have ih: "scan_string Plain (c # acc) (quote_body (d # cs) @ 0x22 # rest) =
        Some (rev (c # acc) @ d # cs, rest)"
      using False 3(2) [of "c # acc"] 3(3) [of "c # acc"] by blast
    show ?thesis unfolding h ih by simp
  qed
qed

lemma digits_of_digits: "\<forall>c \<in> set (digits_of n). is_digit c"
proof (induction n rule: digits_of.induct)
  case (1 n)
  have d: "is_digit (of_nat (0x30 + m))" if "m < 10" for m
    using that by (simp add: is_digit_def word_le_nat_alt unat_word_ariths unat_of_nat)
  show ?case
  proof (cases "n < 10")
    case True
    then show ?thesis using d [of n] by (subst digits_of.simps) simp
  next
    case False
    then show ?thesis using 1 d [of "n mod 10"] by (subst digits_of.simps) simp
  qed
qed

section \<open>JSON numbers\<close>

text \<open>
  Reading the decimal digits of an integer gives the integer back, when what follows
  cannot continue the number.
\<close>

lemma digit_of_10: "is_digit c \<Longrightarrow> digit_of 10 c = Some (unat c - 48)"
  by (auto simp: is_digit_def digit_of_def word_le_nat_alt Let_def)

lemma digits_value_snoc:
  "\<forall>c \<in> set xs. is_digit c \<Longrightarrow> is_digit d \<Longrightarrow>
   digits_value 10 acc (xs @ [d]) = digits_value 10 acc xs * 10 + int (unat d - 48)"
  by (induction xs arbitrary: acc) (simp_all add: digit_of_10)

lemma unat_digit: "m < 10 \<Longrightarrow> unat (of_nat (0x30 + m) :: jschar) = 48 + m"
  by (simp add: unat_word_ariths unat_of_nat)

lemma is_digit_of_nat: "m < 10 \<Longrightarrow> is_digit (of_nat (0x30 + m))"
  by (simp add: is_digit_def word_le_nat_alt unat_word_ariths unat_of_nat)

lemma digits_value_digits_of: "digits_value 10 0 (digits_of n) = int n"
proof (induction n rule: digits_of.induct)
  case (1 n)
  show ?case
  proof (cases "n < 10")
    case True
    then show ?thesis
      using digit_of_10 [OF is_digit_of_nat [OF True]] unat_digit [OF True]
      by (subst digits_of.simps) simp
  next
    case False
    have m: "n mod 10 < 10" by simp
    have "digits_value 10 0 (digits_of (n div 10) @ [of_nat (0x30 + n mod 10)]) =
        digits_value 10 0 (digits_of (n div 10)) * 10 +
        int (unat (of_nat (0x30 + n mod 10) :: jschar) - 48)"
      by (rule digits_value_snoc) (rule digits_of_digits, rule is_digit_of_nat [OF m])
    then have "digits_value 10 0 (digits_of (n div 10) @ [of_nat (0x30 + n mod 10)]) =
        int (n div 10) * 10 + int (n mod 10)"
      unfolding 1 [OF False] unat_digit [OF m] by simp
    then show ?thesis using False by (subst digits_of.simps) (simp add: zmod_int zdiv_int)
  qed
qed

lemma digits_of_nonempty: "digits_of n \<noteq> []"
  by (subst digits_of.simps) simp

lemma hd_digits_of: "0 < n \<Longrightarrow> hd (digits_of n) \<noteq> 0x30"
proof (induction n rule: digits_of.induct)
  case (1 n)
  show ?case
  proof (cases "n < 10")
    case True
    then have "unat (hd (digits_of n)) = 48 + n"
      using unat_digit [OF True] by (subst digits_of.simps) simp
    then show ?thesis using 1(2) by auto
  next
    case False
    then have "0 < n div 10" by simp
    from 1(1) [OF False this] show ?thesis
      using False digits_of_nonempty [of "n div 10"] by (subst digits_of.simps) simp
  qed
qed

lemma number_int_digits:
  assumes "number_end rest"
  shows "number_int (digits_of n @ rest) = digits_of n"
proof (cases "n = 0")
  case True
  then show ?thesis unfolding number_int_def by (subst (1 2 3) digits_of.simps) simp
next
  case False
  obtain c r where cr: "digits_of n = c # r"
    using digits_of_nonempty [of n] by (cases "digits_of n") auto
  have c: "c \<noteq> 0x30" using hd_digits_of [of n] False cr by simp
  have "takeWhile is_digit (digits_of n @ rest) = digits_of n"
    using digits_of_digits [of n] assms
    by (cases rest) (simp_all add: takeWhile_append2 number_end_def)
  then show ?thesis using c by (simp add: cr number_int_def)
qed

lemma number_sign_digits: "number_sign (digits_of n @ rest) = (False, digits_of n @ rest)"
proof -
  obtain c r where cr: "digits_of n = c # r"
    using digits_of_nonempty [of n] by (cases "digits_of n") auto
  have "c \<noteq> 0x2D" using digits_of_digits [of n] by (auto simp: cr is_digit_def)
  then show ?thesis by (simp add: cr number_sign_def)
qed

lemma number_sign_minus: "number_sign (0x2D # t) = (True, t)"
  by (simp add: number_sign_def)

lemma number_end_fraction: "number_end rest \<Longrightarrow> number_fraction rest = (None, rest)"
  by (cases rest) (simp_all add: number_end_def number_fraction_def)

lemma number_end_exponent: "number_end rest \<Longrightarrow> number_exponent rest = (None, rest)"
  by (cases rest) (simp_all add: number_end_def number_exponent_def)

lemma parse_number_digits:
  assumes "number_end rest" and "int n \<le> 9007199254740992"
  shows "parse_number (digits_of n @ rest) = Inr (Some (int n), rest)"
  using assms(2) digits_of_nonempty [of n]
  by (simp add: parse_number_def number_sign_digits number_int_digits [OF assms(1)]
      number_end_fraction [OF assms(1)] number_end_exponent [OF assms(1)]
      digits_value_digits_of)

lemma parse_number_minus:
  assumes "number_end rest" and "int n \<le> 9007199254740992" and "0 < n"
  shows "parse_number (0x2D # digits_of n @ rest) = Inr (Some (- int n), rest)"
  using assms(2,3) digits_of_nonempty [of n]
  by (simp add: parse_number_def number_sign_minus number_int_digits [OF assms(1)]
      number_end_fraction [OF assms(1)] number_end_exponent [OF assms(1)]
      digits_value_digits_of)

lemma parse_number_roundtrip:
  assumes "number_end rest" and "\<bar>i\<bar> \<le> 9007199254740992"
  shows "parse_number (number_to_string i @ rest) = Inr (Some i, rest)"
proof (cases "i < 0")
  case True
  then show ?thesis
    using parse_number_minus [OF assms(1), of "nat (- i)"] assms(2)
    by (simp add: number_to_string_def)
next
  case False
  then show ?thesis
    using parse_number_digits [OF assms(1), of "nat i"] assms(2)
    by (simp add: number_to_string_def)
qed

section \<open>Steps of the parser\<close>

lemma skip_ws_spaces: "\<forall>c \<in> set ws. is_json_space c \<Longrightarrow> skip_ws (ws @ s) = skip_ws s"
  unfolding skip_ws_def by (rule dropWhile_append2) simp

lemma indent_spaces: "\<forall>c \<in> set (newline_indent n). is_json_space c"
  by (simp add: newline_indent_def is_json_space_def)

lemma skip_ws_indent: "skip_ws (newline_indent n @ s) = skip_ws s"
  by (rule skip_ws_spaces [OF indent_spaces])

lemma skip_ws_cons: "\<not> is_json_space c \<Longrightarrow> skip_ws (c # s) = c # s"
  by (simp add: skip_ws_def)

lemma skip_ws_space: "skip_ws (0x20 # s) = skip_ws s"
  by (simp add: skip_ws_def is_json_space_def)

lemma skip_ws_punct [simp]:
  "skip_ws (0x22 # s) = 0x22 # s" "skip_ws (0x2C # s) = 0x2C # s" "skip_ws (0x3A # s) = 0x3A # s"
  "skip_ws (0x5B # s) = 0x5B # s" "skip_ws (0x5D # s) = 0x5D # s"
  "skip_ws (0x7B # s) = 0x7B # s" "skip_ws (0x7D # s) = 0x7D # s"
  by (simp_all add: skip_ws_def is_json_space_def)

lemma skip_ws_quoted [simp]: "skip_ws (QuoteJSONString s @ rest) = QuoteJSONString s @ rest"
  by (simp add: QuoteJSONString_def)

lemma parse_value_string:
  "parse_value (Suc n) (QuoteJSONString s @ rest) = Inr (Some (JString s), rest)"
  using scan_quote_body [of "[]" s rest] by (simp add: QuoteJSONString_def)

lemma parse_value_space: "parse_value n (0x20 # s) = parse_value n s"
  by (cases n) (simp_all add: skip_ws_space)

lemma number_to_string_first:
  "\<exists>c r. number_to_string i = c # r \<and> (c = 0x2D \<or> is_digit c)"
proof (cases "i < 0")
  case True
  then show ?thesis by (simp add: number_to_string_def)
next
  case False
  obtain c r where cr: "digits_of (nat i) = c # r"
    using digits_of_nonempty [of "nat i"] by (cases "digits_of (nat i)") auto
  then have "is_digit c" using digits_of_digits [of "nat i"] by simp
  then show ?thesis using False cr by (simp add: number_to_string_def)
qed

lemma digit_not_special:
  assumes "c = 0x2D \<or> is_digit c"
  shows "\<not> is_json_space c" "c \<noteq> 0x22" "c \<noteq> 0x5B" "c \<noteq> 0x7B"
  using assms by (auto simp: is_digit_def is_json_space_def)

lemma parse_value_number:
  assumes "number_end rest" and "\<bar>i\<bar> \<le> 9007199254740992"
  shows "parse_value (Suc n) (number_to_string i @ rest) = Inr (Some (JNumber i), rest)"
proof -
  obtain c r where cr: "number_to_string i = c # r" "c = 0x2D \<or> is_digit c"
    using number_to_string_first by blast
  have "parse_number (c # r @ rest) = Inr (Some i, rest)"
    using parse_number_roundtrip [OF assms] by (simp add: cr)
  then show ?thesis
    using digit_not_special [OF cr(2)] cr(2) by (simp add: cr(1) skip_ws_cons)
qed

lemma parse_member_step:
  assumes "parse_value n (vtext @ rest) = Inr (v, rest')"
  shows "parse_member (Suc n) (newline_indent k @ QuoteJSONString key @ 0x3A # 0x20 # vtext @ rest) =
    Inr ((key, v), rest')"
  using assms scan_quote_body [of "[]" key "0x3A # 0x20 # vtext @ rest"]
  by (simp add: skip_ws_indent QuoteJSONString_def parse_value_space)

lemma parse_object_rest_comma:
  assumes "parse_member n s = Inr (kv, r)"
  shows "parse_object_rest (Suc n) acc (0x2C # s) = parse_object_rest n (kv # acc) r"
  using assms by simp

lemma parse_object_rest_close:
  assumes "keys_modelled (map fst acc)"
  shows "parse_object_rest (Suc n) acc (newline_indent k @ 0x7D # rest) =
    Inr (map_option JObject
           (all_some (map (\<lambda>kv. map_option (Pair (fst kv)) (snd kv)) (rev acc))), rest)"
  using assms by (simp add: skip_ws_indent)

lemma parse_object_open:
  assumes "parse_member n (newline_indent k @ QuoteJSONString key @ s) = Inr (kv, r)"
    and "\<forall>c \<in> set ws. is_json_space c"
  shows "parse_value (Suc n) (ws @ 0x7B # newline_indent k @ QuoteJSONString key @ s) =
    parse_object_rest n [kv] r"
proof -
  have a: "skip_ws (ws @ 0x7B # newline_indent k @ QuoteJSONString key @ s) =
      0x7B # newline_indent k @ QuoteJSONString key @ s"
    using skip_ws_spaces [OF assms(2)] by simp
  have b: "skip_ws (newline_indent k @ QuoteJSONString key @ s) = 0x22 # quote_body key @ 0x22 # s"
    by (simp add: skip_ws_indent QuoteJSONString_def)
  show ?thesis
    by (simp only: parse_value.simps a b list.case assms(1) sum.case prod.case) simp
qed

lemma parse_array_rest_comma:
  assumes "parse_value n s = Inr (v, r)"
  shows "parse_array_rest (Suc n) acc (0x2C # s) = parse_array_rest n (v # acc) r"
  using assms by simp

lemma parse_array_rest_close:
  "parse_array_rest (Suc n) acc (newline_indent k @ 0x5D # rest) =
     Inr (map_option JArray (all_some (rev acc)), rest)"
  by (simp add: skip_ws_indent)

lemma all_some_map_Some [simp]: "all_some (map Some xs) = Some xs"
  by (induction xs) simp_all

section \<open>The text of a leaderboard\<close>

text \<open>
  The parser reads the text that \<open>JSON_stringify\<close> writes for a list of records:
  one record, then the rest of the array by induction on the list.
\<close>

lemma entry_text_eq:
  "entry_text e =
     0x7B # newline_indent 2 @ QuoteJSONString (js ''name'') @ 0x3A # 0x20 # QuoteJSONString (name e) @
     0x2C # newline_indent 2 @ QuoteJSONString (js ''score'') @ 0x3A # 0x20 # number_to_string (score e) @
     0x2C # newline_indent 2 @ QuoteJSONString (js ''date'') @ 0x3A # 0x20 # QuoteJSONString (date e) @
     newline_indent 1 @ [0x7D]"
  by (simp add: entry_text_def entry_to_json_def numeral_2_eq_2 [symmetric])

lemma number_end_comma: "number_end (0x2C # s)"
  by (simp add: number_end_def is_digit_def)

lemma entry_keys_modelled:
  "keys_modelled (map fst [(js ''date'', d), (js ''score'', s), (js ''name'', n)])"
  by (simp add: keys_modelled_def js_def is_digit_def)

lemma parse_entry:
  assumes "\<bar>score e\<bar> \<le> 9007199254740992" and "\<forall>c \<in> set ws. is_json_space c"
  shows "parse_value (Suc (Suc (Suc (Suc (Suc n))))) (ws @ entry_text e @ rest) =
    Inr (Some (entry_to_json e), rest)"
proof -
  let ?t3 = "newline_indent 1 @ 0x7D # rest"
  let ?m3 = "newline_indent 2 @ QuoteJSONString (js ''date'') @ 0x3A # 0x20 # QuoteJSONString (date e) @ ?t3"
  let ?t2 = "0x2C # ?m3"
  let ?m2 = "newline_indent 2 @ QuoteJSONString (js ''score'') @ 0x3A # 0x20 # number_to_string (score e) @ ?t2"
  let ?t1 = "0x2C # ?m2"
  let ?m1 = "newline_indent 2 @ QuoteJSONString (js ''name'') @ 0x3A # 0x20 # QuoteJSONString (name e) @ ?t1"
  have m3: "parse_member (Suc (Suc n)) ?m3 = Inr ((js ''date'', Some (JString (date e))), ?t3)"
    by (rule parse_member_step) (rule parse_value_string)
  have m2: "parse_member (Suc (Suc (Suc n))) ?m2 = Inr ((js ''score'', Some (JNumber (score e))), ?t2)"
    by (rule parse_member_step) (rule parse_value_number [OF number_end_comma assms(1)])
  have m1: "parse_member (Suc (Suc (Suc (Suc n)))) ?m1 = Inr ((js ''name'', Some (JString (name e))), ?t1)"
    by (rule parse_member_step) (rule parse_value_string)
  have "parse_value (Suc (Suc (Suc (Suc (Suc n))))) (ws @ 0x7B # ?m1) =
      parse_object_rest (Suc (Suc (Suc (Suc n)))) [(js ''name'', Some (JString (name e)))] ?t1"
    by (rule parse_object_open [OF m1 assms(2)])
  also have "\<dots> = parse_object_rest (Suc (Suc (Suc n)))
      [(js ''score'', Some (JNumber (score e))), (js ''name'', Some (JString (name e)))] ?t2"
    by (rule parse_object_rest_comma [OF m2])
  also have "\<dots> = parse_object_rest (Suc (Suc n))
      [(js ''date'', Some (JString (date e))), (js ''score'', Some (JNumber (score e))),
       (js ''name'', Some (JString (name e)))] ?t3"
    by (rule parse_object_rest_comma [OF m3])
  also have "\<dots> = Inr (map_option JObject (all_some
      (map (\<lambda>kv. map_option (Pair (fst kv)) (snd kv))
         (rev [(js ''date'', Some (JString (date e))), (js ''score'', Some (JNumber (score e))),
               (js ''name'', Some (JString (name e)))]))), rest)"
    by (rule parse_object_rest_close [OF entry_keys_modelled])
  finally show ?thesis by (simp add: entry_text_eq entry_to_json_def)
qed

lemma join_Cons: "join sep (x # xs) = x @ concat (map (\<lambda>y. sep @ y) xs)"
  by (induction xs arbitrary: x) simp_all

lemma stringify_entries:
  "JSON_stringify (JArray (map entry_to_json (e # es))) =
     0x5B # newline_indent 1 @ entry_text e @ tail_text es"
  by (simp add: JSON_stringify_def join_Cons tail_text_def entry_text_def comp_def
      del: join.simps)

lemma parse_tail:
  assumes "safe_scores es" and "length es + 6 \<le> fuel"
  shows "parse_array_rest fuel (map Some acc) (tail_text es @ rest) =
    Inr (Some (JArray (rev acc @ map entry_to_json es)), rest)"
  using assms
proof (induction es arbitrary: fuel acc)
  case Nil
  then obtain n where "fuel = Suc n" by (cases fuel) auto
  then show ?case
    using parse_array_rest_close [of n "map Some acc" 0 rest]
    by (simp add: tail_text_def rev_map)
next
  case (Cons e es)
  define n where "n = fuel - 6"
  have n: "fuel = Suc (Suc (Suc (Suc (Suc (Suc n)))))" "length es + 1 \<le> n"
    using Cons.prems(2) by (simp_all add: n_def)
  let ?f = "Suc (Suc (Suc (Suc (Suc n))))"
  have s: "safe_scores es" "\<bar>score e\<bar> \<le> 9007199254740992"
    using Cons.prems(1) by (simp_all add: safe_scores_def)
  have v: "parse_value ?f (newline_indent 1 @ entry_text e @ tail_text es @ rest) =
      Inr (Some (entry_to_json e), tail_text es @ rest)"
    by (rule parse_entry [OF s(2) indent_spaces])
  have "parse_array_rest fuel (map Some acc)
        (0x2C # newline_indent 1 @ entry_text e @ tail_text es @ rest) =
      parse_array_rest ?f (Some (entry_to_json e) # map Some acc) (tail_text es @ rest)"
    unfolding n(1) by (rule parse_array_rest_comma [OF v])
  also have "\<dots> = parse_array_rest ?f (map Some (entry_to_json e # acc)) (tail_text es @ rest)"
    by simp
  also have "\<dots> = Inr (Some (JArray (rev (entry_to_json e # acc) @ map entry_to_json es)), rest)"
    using n(2) by (intro Cons.IH [OF s(1)]) simp
  finally show ?case by (simp add: tail_text_def)
qed

lemma length_tail_text: "length es + 2 \<le> length (tail_text es)"
proof -
  have "length es \<le> length (concat (map (\<lambda>e. 0x2C # newline_indent 1 @ entry_text e) es))"
    by (induction es) simp_all
  then show ?thesis by (simp add: tail_text_def newline_indent_def)
qed

lemma skip_ws_entry_text: "\<exists>ds. skip_ws (newline_indent 1 @ entry_text e @ s) = 0x7B # ds"
  by (simp add: skip_ws_indent entry_text_eq)

lemma parse_array_open:
  assumes "parse_value n s = Inr (v, r)" and "skip_ws s = d # ds" and "d \<noteq> 0x5D"
  shows "parse_value (Suc n) (0x5B # s) = parse_array_rest n [v] r"
  using assms by simp

lemma JSON_parse_stringify_entries:
  assumes "safe_scores es"
  shows "JSON_parse (JSON_stringify (JArray (map entry_to_json es))) =
    Inr (JArray (map entry_to_json es))"
proof (cases es)
  case Nil
  then show ?thesis
    by (simp add: JSON_parse_def JSON_stringify_def js_def skip_ws_def is_json_space_def)
next
  case (Cons e es')
  let ?s = "newline_indent 1 @ entry_text e @ tail_text es'"
  have s: "safe_scores es'" "\<bar>score e\<bar> \<le> 9007199254740992"
    using assms Cons by (simp_all add: safe_scores_def)
  have "1 \<le> length (entry_text e)" by (simp add: entry_text_eq)
  then have len: "length es' + 6 \<le> length ?s"
    using length_tail_text [of es'] by (simp add: newline_indent_def)
  define n where "n = length ?s - 4"
  have n: "Suc (length ?s) = Suc (Suc (Suc (Suc (Suc n))))" using len by (simp add: n_def)
  have v: "parse_value (Suc (length ?s)) ?s = Inr (Some (entry_to_json e), tail_text es')"
    unfolding n using parse_entry [OF s(2) indent_spaces, of n 1 "tail_text es'"] by simp
  obtain ds where ds: "skip_ws ?s = 0x7B # ds" using skip_ws_entry_text by blast
  have t: "parse_array_rest (Suc (length ?s)) [Some (entry_to_json e)] (tail_text es') =
      Inr (Some (JArray (map entry_to_json (e # es'))), [])"
    using parse_tail [OF s(1), of "Suc (length ?s)" "[entry_to_json e]" "[]"] len by simp
  have "parse_value (Suc (Suc (length ?s))) (0x5B # ?s) =
      Inr (Some (JArray (map entry_to_json (e # es'))), [])"
    using parse_array_open [OF v ds] t by simp
  then have "JSON_parse (0x5B # ?s) = Inr (JArray (map entry_to_json (e # es')))"
    by (simp add: JSON_parse_def skip_ws_def)
  then show ?thesis by (simp only: Cons stringify_entries)
qed

section \<open>Strings that UTF-8 stores unchanged\<close>

text \<open>
  What \<open>JSON_stringify\<close> writes has no lone surrogate, so the file holds exactly
  this text.
\<close>

lemma replacement_not_surrogate: "\<not> is_surrogate 0xFFFD"
  by (simp add: is_surrogate_def is_high_surrogate_def is_low_surrogate_def)

lemma well_formed_Cons:
  "\<not> is_surrogate c \<Longrightarrow> well_formed (c # s) = well_formed s"
  by (cases s) (simp_all add: well_formed_def is_surrogate_def)

lemma well_formed_pair:
  "is_high_surrogate c \<Longrightarrow> is_low_surrogate d \<Longrightarrow> well_formed (c # d # s) = well_formed s"
  by (simp add: well_formed_def)

lemma well_formed_Nil [simp]: "well_formed []"
  by (simp add: well_formed_def)

lemma lone_surrogate:
  assumes "well_formed (c # s)" "is_surrogate c"
  shows "is_high_surrogate c \<and> (\<exists>d t. s = d # t \<and> is_low_surrogate d)"
proof (cases s)
  case Nil
  then show ?thesis using assms replacement_not_surrogate by (auto simp: well_formed_def)
next
  case (Cons d t)
  then show ?thesis
    using assms replacement_not_surrogate by (auto simp: well_formed_def split: if_splits)
qed

lemma well_formed_append:
  "well_formed a \<Longrightarrow> well_formed b \<Longrightarrow> well_formed (a @ b)"
proof (induction a rule: utf8_scrub.induct)
  case 1
  then show ?case by simp
next
  case (2 c)
  then have "\<not> is_surrogate c" using lone_surrogate [of c "[]"] by auto
  then show ?case using 2 by (simp add: well_formed_Cons)
next
  case (3 c d cs)
  show ?case
  proof (cases "is_surrogate c")
    case True
    then have p: "is_high_surrogate c" "is_low_surrogate d"
      using lone_surrogate [OF "3.prems"(1)] by auto
    then have "well_formed cs" using "3.prems"(1) by (simp add: well_formed_pair)
    then have "well_formed (cs @ b)" using p "3.IH"(1) "3.prems"(2) by simp
    then show ?thesis using p by (simp add: well_formed_pair)
  next
    case False
    then have "well_formed (d # cs)" using "3.prems"(1) by (simp add: well_formed_Cons)
    then have "well_formed ((d # cs) @ b)"
      using False "3.IH"(3) "3.prems"(2) by (simp add: is_surrogate_def)
    then show ?thesis using False by (simp add: well_formed_Cons)
  qed
qed

lemma well_formed_plain: "\<forall>c \<in> set s. \<not> is_surrogate c \<Longrightarrow> well_formed s"
  by (induction s) (simp_all add: well_formed_Cons)

lemma ascii_not_surrogate: "unat c < 128 \<Longrightarrow> \<not> is_surrogate c"
  by (simp add: is_surrogate_def is_high_surrogate_def is_low_surrogate_def word_le_nat_alt)

lemma hex_digit_ascii: "n < 16 \<Longrightarrow> unat (hex_digit n) < 128"
  by (simp add: unat_hex_digit)

lemma well_formed_unicode_escape: "well_formed (unicode_escape c)"
proof -
  have "unat c < 2 ^ LENGTH(16)" by (rule unsigned_less)
  then have d: "unat c div 4096 < 16" by simp
  show ?thesis
    unfolding unicode_escape_def
    by (intro well_formed_plain) (simp add: ascii_not_surrogate hex_digit_ascii d)
qed

lemma well_formed_quote_char: "\<not> is_surrogate c \<Longrightarrow> well_formed (quote_char c)"
  by (auto simp: quote_char_def well_formed_unicode_escape well_formed_Cons ascii_not_surrogate)

lemma well_formed_quote_body: "well_formed (quote_body s)"
proof (induction s rule: quote_body.induct)
  case 1
  then show ?case by simp
next
  case (2 c)
  then show ?case
    by (simp add: well_formed_unicode_escape well_formed_quote_char is_surrogate_def)
next
  case (3 c d cs)
  show ?case
  proof (cases "is_high_surrogate c \<and> is_low_surrogate d")
    case True
    then show ?thesis using 3(1) by (simp add: well_formed_pair)
  next
    case False
    from False have nf: "(is_high_surrogate c \<and> is_low_surrogate d) = False" by simp
    have r: "well_formed (quote_body (d # cs))" using False 3(2,3) by blast
    show ?thesis
      using r
      by (simp add: nf well_formed_append well_formed_unicode_escape well_formed_quote_char
          is_surrogate_def)
  qed
qed

lemma well_formed_QuoteJSONString: "well_formed (QuoteJSONString s)"
proof -
  have "well_formed (quote_body s @ [0x22])"
    by (intro well_formed_append well_formed_quote_body well_formed_plain)
      (simp add: ascii_not_surrogate)
  then show ?thesis by (simp add: QuoteJSONString_def well_formed_Cons ascii_not_surrogate)
qed

lemma digit_not_surrogate: "is_digit c \<Longrightarrow> \<not> is_surrogate c"
  by (simp add: is_digit_def ascii_not_surrogate word_le_nat_alt)

lemma well_formed_number: "well_formed (number_to_string i)"
  using digits_of_digits
  by (auto simp: number_to_string_def well_formed_Cons ascii_not_surrogate
      intro!: well_formed_plain digit_not_surrogate)

lemma well_formed_indent: "well_formed (newline_indent n)"
  by (intro well_formed_plain) (simp add: newline_indent_def ascii_not_surrogate)

lemma well_formed_join:
  "well_formed sep \<Longrightarrow> \<forall>x \<in> set xs. well_formed x \<Longrightarrow> well_formed (join sep xs)"
  by (induction sep xs rule: join.induct) (simp_all add: well_formed_append)

lemma well_formed_stringify: "well_formed (stringify_at n v)"
proof (induction n v rule: stringify_at.induct)
  case (6 n v vs)
  have "well_formed (join (0x2C # newline_indent (n + 1)) (map (stringify_at (n + 1)) (v # vs)))"
    using 6 by (intro well_formed_join) (auto simp: well_formed_Cons ascii_not_surrogate well_formed_indent)
  then show ?case
    by (simp add: well_formed_Cons ascii_not_surrogate well_formed_append well_formed_indent
        del: join.simps)
next
  case (8 n kv kvs)
  have ih: "well_formed (stringify_at (n + 1) (snd p))" if "p \<in> set (kv # kvs)" for p
    using 8 that by (cases p) force
  have "well_formed (QuoteJSONString (fst p) @ [0x3A, 0x20] @ stringify_at (n + 1) (snd p))"
    if "p \<in> set (kv # kvs)" for p
    using ih [OF that]
    by (intro well_formed_append well_formed_QuoteJSONString)
      (simp_all add: well_formed_Cons ascii_not_surrogate)
  then have "well_formed (join (0x2C # newline_indent (n + 1))
      (map (\<lambda>p. QuoteJSONString (fst p) @ [0x3A, 0x20] @ stringify_at (n + 1) (snd p)) (kv # kvs)))"
    by (intro well_formed_join)
      (auto simp: well_formed_Cons ascii_not_surrogate well_formed_indent simp del: append.simps)
  then show ?case
    by (simp add: well_formed_Cons ascii_not_surrogate well_formed_append well_formed_indent
        del: join.simps)
qed (simp_all add: well_formed_number well_formed_QuoteJSONString js_def well_formed_Cons
    ascii_not_surrogate)

section \<open>The fuel of the parser\<close>
















section \<open>The parser and the grammar\<close>

subsection \<open>What the parser reads is in the grammar\<close>































subsection \<open>What is in the grammar is read by the parser\<close>























lemma strip_prefix_append: "strip_prefix p (p @ r) = Some r"
  by (induction p) simp_all


section \<open>Loading and saving the leaderboard\<close>

lemma json_to_entry_inverse [simp]: "json_to_entry (entry_to_json e) = Some e"
  by (simp add: json_to_entry_def entry_to_json_def)

lemma all_some_comp [simp]: "all_some (map (json_to_entry \<circ> entry_to_json) es) = Some es"
  by (induction es) simp_all

lemma all_some_map: "all_some (map json_to_entry (map entry_to_json es)) = Some es"
  by simp

lemma leaderboard_of_entries: "leaderboard_of (JArray (map entry_to_json es)) = Some es"
  by (simp add: leaderboard_of_def all_some_map)

lemma writeFile_stringify: "writeFile f (JSON_stringify v) = Some (JSON_stringify v)"
  using well_formed_stringify [of 0 v] by (simp add: writeFile_def JSON_stringify_def well_formed_def)

lemma replicate_numeral_step: "replicate (numeral k) x = x # replicate (pred_numeral k) x"
  by (simp add: numeral_eq_Suc)



lemma stringify_example:
  "JSON_stringify (JArray [entry_to_json \<lparr>name = js ''a'', score = 60, date = js ''d''\<rparr>]) =
     js ''[\<newline>  {\<newline>    \"name\": \"a\",\<newline>    \"score\": 60,\<newline>    \"date\": \"d\"\<newline>  }\<newline>]''"
  by (simp add: JSON_stringify_def entry_to_json_def js_def newline_indent_def QuoteJSONString_def
      quote_char_def number_to_string_def digits_of.simps is_high_surrogate_def
      is_low_surrogate_def replicate_numeral_step)

lemma load_written_entries:
  assumes "safe_scores es"
  shows "loadHighScores (writeFile f (JSON_stringify (JArray (map entry_to_json es)))) =
    Inr (JArray (map entry_to_json es))"
  using JSON_parse_stringify_entries [OF assms]
  by (simp add: writeFile_stringify loadHighScores_def readFile_def)

text \<open>
  What \<^verbatim>\<open>saveHighScore\<close> writes is what the next \<^verbatim>\<open>loadHighScores\<close> returns: the
  merged leaderboard.
\<close>

lemma saveHighScore_then_load:
  assumes "loadHighScores f = Inr (JArray (map entry_to_json highScores))"
    and "safe_scores highScores" and "\<bar>s\<bar> \<le> 9007199254740992"
  shows "\<exists>f'. saveHighScore f now s n = Inr f' \<and>
     loadHighScores f' = Inr (JArray (map entry_to_json
       (merge_high_score highScores \<lparr>name = n, score = s, date = now\<rparr>)))"
proof -
  let ?e = "\<lparr>name = n, score = s, date = now\<rparr>"
  have "set (merge_high_score highScores ?e) \<subseteq> set (highScores @ [?e])"
    unfolding merge_high_score_def
    using set_take_subset [of 5 "js_sort by_score_desc (highScores @ [?e])"]
      mset_js_sort [of "highScores @ [?e]", THEN mset_eq_setD]
    by simp
  then have "safe_scores (merge_high_score highScores ?e)"
    using assms(2,3) by (auto simp: safe_scores_def)
  from load_written_entries [OF this, of f] show ?thesis
    by (simp add: saveHighScore_def assms(1) all_some_map)
qed

lemma resetHighScores_then_load: "loadHighScores (resetHighScores f) = Inr (JArray [])"
  using load_written_entries [of "[]" f] by (simp add: resetHighScores_def safe_scores_def)










text \<open>
  Claim C8. Persisting a leaderboard (the \<^verbatim>\<open>writeFile\<close> of \<^verbatim>\<open>JSON.stringify\<close> with
  indentation 2, line 30) and then loading it yields the list of the same records, with
  the same name, score and date each. This holds for a list of any length, five or
  fewer included, whose scores are integers that a JavaScript number holds exactly.
\<close>

theorem persist_then_load:
  assumes "safe_scores es"
  shows "loadHighScores (writeFile f (JSON_stringify (JArray (map entry_to_json es)))) =
           Inr (JArray (map entry_to_json es)) \<and>
         leaderboard_of (JArray (map entry_to_json es)) = Some es"
  using load_written_entries [OF assms] by (simp add: leaderboard_of_entries)

theorem persist_then_load_witness:
  "safe_scores example_scores \<and> length example_scores \<le> 5 \<and>
   loadHighScores (writeFile None (JSON_stringify (JArray (map entry_to_json example_scores)))) =
     Inr (JArray (map entry_to_json example_scores)) \<and>
   leaderboard_of (JArray (map entry_to_json example_scores)) = Some example_scores"
proof -
  have a: "safe_scores example_scores" "length example_scores \<le> 5"
    by (simp_all add: safe_scores_def example_scores_def)
  show ?thesis using persist_then_load [OF a(1), of None] a by simp
qed

end
